theory Spec2Isabelle
  imports Main "HOL-Library.Finite_Map" "HOL-Library.Multiset" "HOL-Library.Word"
    "HOL-Library.Product_Lexorder"
begin

unbundle bit_operations_syntax

section \<open>Terms, linear expressions and constraints\<close>

text \<open>
  Modelled from the spec: the package \<open>schema\<close> is not among the sources. The
  visibility classes are the ones the compiler switches on (\<open>schema.Public\<close>,
  \<open>schema.Secret\<close>, \<open>schema.Internal\<close>) and the "unset" sentinel of the
  data model.
\<close>

datatype Visibility = schema_Unset | schema_Internal | schema_Secret | schema_Public

text \<open>
  Modelled from the spec: the package \<open>compiled\<close> is not among the sources. A
  term is the triple (coefficient ID, wire ID, wire visibility); \<open>Pack\<close> takes
  the wire ID first, as \<open>compiled.Pack(idx, compiled.CoeffIdOne, schema.Internal)\<close>
  does, and the selectors are the accessor methods the compiler calls.
\<close>

datatype Term = Pack (WireID: nat) (CoeffID: nat) (VariableVisibility: Visibility)

definition Unpack :: "Term \<Rightarrow> nat \<times> nat \<times> Visibility" where
  "Unpack t = (CoeffID t, WireID t, VariableVisibility t)"

definition SetCoeffID :: "nat \<Rightarrow> Term \<Rightarrow> Term" where
  "SetCoeffID cID t = Pack (WireID t) cID (VariableVisibility t)"

definition SetWireID :: "nat \<Rightarrow> Term \<Rightarrow> Term" where
  "SetWireID vID t = Pack vID (CoeffID t) (VariableVisibility t)"

text \<open>
  Modelled from the spec: the reserved coefficient IDs of the constants 0 and 1
  (\<open>compiled.CoeffIdZero\<close>, \<open>compiled.CoeffIdOne\<close>).
\<close>

definition CoeffIdZero :: nat where
  "CoeffIdZero = 0"

definition CoeffIdOne :: nat where
  "CoeffIdOne = 1"

text \<open>
  What ends a call without its result: a Go panic (an index out of a slice's
  range, or an explicit \<open>panic\<close>), an \<open>error\<close> value returned to the
  caller, and the end of the fuel that bounds the one recursion of the compiler
  that need not terminate (\<open>processLE\<close>).
\<close>

datatype fault = IndexOutOfRange | Panic string | Error string | OutOfFuel

definition index :: "'a list \<Rightarrow> nat \<Rightarrow> fault + 'a" where
  "index xs i = (if i < length xs then Inr (xs ! i) else Inl IndexOutOfRange)"

type_synonym LinearExpression = "Term list"

datatype Variable = Variable (LinExp: LinearExpression)

text \<open>
  Modelled from the spec: \<open>Clone\<close> of \<open>compiled.Variable\<close> returns a fresh
  copy of the expression. Values have no identity here, so the copy is the same
  list of terms.
\<close>

definition Clone :: "Variable \<Rightarrow> Variable" where
  "Clone v = Variable (map (\<lambda>t. t) (LinExp v))"

record R1C =
  R1C_L :: Variable
  R1C_R :: Variable
  R1C_O :: Variable

subsection \<open>newR1C\<close>

definition newR1C :: "Variable \<Rightarrow> Variable \<Rightarrow> Variable \<Rightarrow> R1C" where
  "newR1C l r out =
     (let (l', r') = (if length (LinExp l) > length (LinExp r) then (r, l) else (l, r))
      in \<lparr>R1C_L = Clone l', R1C_R = Clone r', R1C_O = Clone out\<rparr>)"

section \<open>The compiler's state\<close>

text \<open>
  Modelled from the spec: the coefficient table (\<open>cs.CoeffTable\<close>) is not among
  the sources. It interns values: \<open>CoeffID\<close> (here \<open>CoeffTable_CoeffID\<close>) returns the ID of the entry that
  holds the value and appends the value when no entry holds it; entries are never
  removed, and 0 and 1 are registered first, under their reserved IDs.
\<close>

record CoeffTable =
  Coeffs :: "int list"

definition NewCoeffTable :: CoeffTable where
  "NewCoeffTable = \<lparr>Coeffs = [0, 1]\<rparr>"

fun find_coeff :: "int list \<Rightarrow> int \<Rightarrow> nat option" where
  "find_coeff [] v = None"
| "find_coeff (c # cs) v = (if c = v then Some 0 else map_option Suc (find_coeff cs v))"

definition CoeffTable_CoeffID :: "CoeffTable \<Rightarrow> int \<Rightarrow> nat \<times> CoeffTable" where
  "CoeffTable_CoeffID t v =
     (case find_coeff (Coeffs t) v of
        Some idx \<Rightarrow> (idx, t)
      | None \<Rightarrow> (length (Coeffs t), t\<lparr>Coeffs := Coeffs t @ [v]\<rparr>))"

text \<open>
  A hint input as \<open>NewHint\<close> and \<open>Compile\<close> store it and \<open>processLE\<close>
  switches on it: a variable, a linear expression, a term, or a constant
  (\<open>big.Int\<close>).
\<close>

datatype HintInput =
  InVariable Variable
| InLinearExpression LinearExpression
| InTerm Term
| InConstant int

record Hint =
  ID :: nat
  Inputs :: "HintInput list"
  Wires :: "nat list"

record LogEntry =
  Format :: string
  ToResolve :: "Term list"

datatype ecc_ID = UNKNOWN | BN254 | BLS12_377 | BLS12_381 | BW6_761 | BLS24_315 | BW6_633

typedecl Schema

record CompileConfig =
  Capacity :: nat
  IgnoreUnconstrainedInputs :: bool

text \<open>
  The fields of \<open>compiled.ConstraintSystem\<close> that the compiler reads or writes
  (its counters of \<open>AddCounter\<close> are left out). Go's maps are finite maps; Go's
  \<open>int\<close> holds wire IDs, counts and indices, which are never negative, as
  \<open>nat\<close>. The builder embeds the constraint system and so does the compiled
  \<open>R1CS\<close>: the records extend each other in that order.
\<close>

record ConstraintSystem =
  NbInternalVariables :: nat
  NbPublicVariables :: nat
  NbSecretVariables :: nat
  Public :: "string list"
  Secret :: "string list"
  Logs :: "LogEntry list"
  DebugInfo :: "LogEntry list"
  MDebug :: "(nat, nat) fmap"
  MHints :: "(nat, Hint) fmap"
  Schema :: "Schema option"
  Levels :: "nat list list"
  CurveID :: ecc_ID

record R1CS = ConstraintSystem +
  Constraints :: "R1C list"

record compiler = R1CS +
  st :: CoeffTable
  config :: CompileConfig
  mtBooleans :: "64 word \<rightharpoonup> LinearExpression list"

definition len :: "('k, 'v) fmap \<Rightarrow> nat" where
  "len m = card (fmdom' m)"

definition newCompiler :: "ecc_ID \<Rightarrow> CompileConfig \<Rightarrow> compiler" where
  "newCompiler curveID cfg =
     \<lparr>NbInternalVariables = 0, NbPublicVariables = 0, NbSecretVariables = 0,
      Public = [''one''], Secret = [], Logs = [], DebugInfo = [],
      MDebug = fmempty, MHints = fmempty, Schema = None, Levels = [],
      CurveID = curveID, Constraints = [],
      st = NewCoeffTable, config = cfg, mtBooleans = Map.empty\<rparr>"

subsection \<open>Allocation of wires\<close>

definition newInternalVariable :: "compiler \<Rightarrow> compiler \<times> Variable" where
  "newInternalVariable system =
     (let idx = NbInternalVariables system
      in (system\<lparr>NbInternalVariables := NbInternalVariables system + 1\<rparr>,
          Variable [Pack idx CoeffIdOne schema_Internal]))"

definition AddPublicVariable :: "compiler \<Rightarrow> string \<Rightarrow> fault + compiler \<times> Variable" where
  "AddPublicVariable system name =
     (if Schema system \<noteq> None
      then Inl (Panic ''do not call AddPublicVariable in circuit.Define()'')
      else
        (let idx = length (Public system)
         in Inr (system\<lparr>Public := Public system @ [name]\<rparr>,
                 Variable [Pack idx CoeffIdOne schema_Public])))"

definition AddSecretVariable :: "compiler \<Rightarrow> string \<Rightarrow> fault + compiler \<times> Variable" where
  "AddSecretVariable system name =
     (if Schema system \<noteq> None
      then Inl (Panic ''do not call AddSecretVariable in circuit.Define()'')
      else
        (let idx = length (Secret system)
         in Inr (system\<lparr>Secret := Secret system @ [name]\<rparr>,
                 Variable [Pack idx CoeffIdOne schema_Secret])))"

definition one :: Variable where
  "one = Variable [Pack 0 CoeffIdOne schema_Public]"

definition SetSchema :: "compiler \<Rightarrow> Schema \<Rightarrow> fault + compiler" where
  "SetSchema cs s =
     (if Schema cs \<noteq> None then Inl (Panic ''SetSchema called multiple times'')
      else Inr (cs\<lparr>Schema := Some s\<rparr>))"

subsection \<open>The order of terms and reduce\<close>

text \<open>
  Modelled from the spec: the order of terms (\<open>LinearExpression.Less\<close>) is by
  visibility class first, Public before Secret before Internal before unset, then
  by wire ID ascending.
\<close>

fun visibility_rank :: "Visibility \<Rightarrow> nat" where
  "visibility_rank schema_Public = 0"
| "visibility_rank schema_Secret = 1"
| "visibility_rank schema_Internal = 2"
| "visibility_rank schema_Unset = 3"

definition Less :: "Term \<Rightarrow> Term \<Rightarrow> bool" where
  "Less a b =
     (if VariableVisibility a = VariableVisibility b then WireID a < WireID b
      else visibility_rank (VariableVisibility a) < visibility_rank (VariableVisibility b))"

text \<open>
  Go's \<open>sort.IsSorted\<close>: no element is less than the one before it.
\<close>

fun IsSorted :: "Term list \<Rightarrow> bool" where
  "IsSorted (a # b # l) = (\<not> Less b a \<and> IsSorted (b # l))"
| "IsSorted l = True"

text \<open>
  Go's \<open>sort.Sort\<close> promises a sorted permutation of the slice and no stability;
  the functions that call it take it as the parameter \<open>srt\<close>, and
  \<open>sort_contract\<close> is what the library promises of it. \<open>insertionSort\<close> is one
  such function.
\<close>

definition sort_contract :: "(Term list \<Rightarrow> Term list) \<Rightarrow> bool" where
  "sort_contract srt = (\<forall>l. IsSorted (srt l) \<and> mset (srt l) = mset l)"

fun insert_term :: "Term \<Rightarrow> Term list \<Rightarrow> Term list" where
  "insert_term t [] = [t]"
| "insert_term t (a # l) = (if Less t a then t # a # l else a # insert_term t l)"

definition insertionSort :: "Term list \<Rightarrow> Term list" where
  "insertionSort l = foldr insert_term l []"

text \<open>
  \<open>if !sort.IsSorted(l) { sort.Sort(l) }\<close>: the slice is sorted in place, so the
  caller's expression is left sorted as well.
\<close>

definition ensure_sorted :: "(Term list \<Rightarrow> Term list) \<Rightarrow> Term list \<Rightarrow> Term list" where
  "ensure_sorted srt l = (if \<not> IsSorted l then srt l else l)"

text \<open>
  \<open>Mod\<close> of \<open>big.Int\<close> is the Euclidean modulus, and panics on the
  modulus zero.
\<close>

definition big_Mod :: "int \<Rightarrow> int \<Rightarrow> fault + int" where
  "big_Mod x y = (if y = 0 then Inl (Panic ''division by zero'') else Inr (x mod \<bar>y\<bar>))"

text \<open>
  The loop of \<open>reduce\<close>, with the slice \<open>l\<close>, the index \<open>i\<close> (which starts at
  1 and never falls below it) and the coefficient table as its state. On a
  redundancy the term at \<open>i - 1\<close> takes the interned sum, the term at \<open>i\<close> is
  cut out, and \<open>i--\<close> followed by the loop's \<open>i++\<close> leaves \<open>i\<close> where it is.
  \<open>q\<close> is the modulus of the curve's scalar field.
\<close>

function reduce_loop :: "int \<Rightarrow> CoeffTable \<Rightarrow> Term list \<Rightarrow> nat \<Rightarrow> fault + CoeffTable \<times> Term list" where
  "reduce_loop q tbl l i =
     (if i < length l then
        (let (pcID, pvID, pVis) = Unpack (l ! (i - 1));
             (ccID, cvID, cVis) = Unpack (l ! i)
         in if pVis = cVis \<and> pvID = cvID then
              (case index (Coeffs tbl) pcID of
                 Inl e \<Rightarrow> Inl e
               | Inr a \<Rightarrow>
                   (case index (Coeffs tbl) ccID of
                      Inl e \<Rightarrow> Inl e
                    | Inr b \<Rightarrow>
                        (case big_Mod (a + b) q of
                           Inl e \<Rightarrow> Inl e
                         | Inr c \<Rightarrow>
                             (let (cid, tbl') = CoeffTable_CoeffID tbl c;
                                  l' = l[i - 1 := SetCoeffID cid (l ! (i - 1))]
                              in reduce_loop q tbl' (take i l' @ drop (i + 1) l') i))))
            else reduce_loop q tbl l (i + 1))
      else Inr (tbl, l))"
  by pat_completeness auto
termination
  by (relation "measure (\<lambda>(q, tbl, l, i). length l - i)") auto

declare reduce_loop.simps [simp del]

text \<open>
  The key by which terms are ordered: the rank of the visibility class, then the
  wire ID.
\<close>

definition term_key :: "Term \<Rightarrow> nat \<times> nat" where
  "term_key t = (visibility_rank (VariableVisibility t), WireID t)"

text \<open>
  The loop of \<open>reduce\<close> once more, by recursion on the slice from the pair of
  terms under comparison on; it is used in the proofs only, and
  \<open>reduce_loop_merge_adjacent\<close> shows that the loop computes it.
\<close>

fun merge_adjacent :: "int \<Rightarrow> CoeffTable \<Rightarrow> Term list \<Rightarrow> fault + CoeffTable \<times> Term list" where
  "merge_adjacent q tbl (p # c # rest) =
     (if VariableVisibility p = VariableVisibility c \<and> WireID p = WireID c then
        (case index (Coeffs tbl) (CoeffID p) of
           Inl e \<Rightarrow> Inl e
         | Inr a \<Rightarrow>
             (case index (Coeffs tbl) (CoeffID c) of
                Inl e \<Rightarrow> Inl e
              | Inr b \<Rightarrow>
                  (case big_Mod (a + b) q of
                     Inl e \<Rightarrow> Inl e
                   | Inr s \<Rightarrow>
                       (let (cid, tbl') = CoeffTable_CoeffID tbl s
                        in merge_adjacent q tbl' (SetCoeffID cid p # rest)))))
      else
        (case merge_adjacent q tbl (c # rest) of
           Inl e \<Rightarrow> Inl e
         | Inr (tbl', r) \<Rightarrow> Inr (tbl', p # r)))"
| "merge_adjacent q tbl l = Inr (tbl, l)"

text \<open>
  The coefficient of a term in a table, the terms of an expression that reference
  a wire, a table that keeps the entries of another, and what \<open>reduce\<close> makes
  of the terms \<open>ts\<close> of one wire: nothing of none, the term itself of one, and
  of more one term with their sum modulo \<open>q\<close>.
\<close>

definition term_value :: "CoeffTable \<Rightarrow> Term \<Rightarrow> int" where
  "term_value tbl t = Coeffs tbl ! CoeffID t"

definition wire_terms :: "Visibility \<Rightarrow> nat \<Rightarrow> Term list \<Rightarrow> Term list" where
  "wire_terms v w l = filter (\<lambda>t. VariableVisibility t = v \<and> WireID t = w) l"

definition extends :: "CoeffTable \<Rightarrow> CoeffTable \<Rightarrow> bool" where
  "extends tbl tbl' = (\<exists>ext. Coeffs tbl' = Coeffs tbl @ ext)"

definition merged :: "int \<Rightarrow> CoeffTable \<Rightarrow> CoeffTable \<Rightarrow> Term list \<Rightarrow> Term list \<Rightarrow> bool" where
  "merged q tbl tbl' ts rs =
     (case ts of
        [] \<Rightarrow> rs = []
      | [t] \<Rightarrow> rs = [t]
      | t # u # us \<Rightarrow>
          (\<exists>t'. rs = [t'] \<and> term_value tbl' t' = sum_list (map (term_value tbl) ts) mod \<bar>q\<bar>))"

definition reduce ::
  "(Term list \<Rightarrow> Term list) \<Rightarrow> int \<Rightarrow> compiler \<Rightarrow> Variable \<Rightarrow> fault + compiler \<times> Variable" where
  "reduce srt q system l =
     (case reduce_loop q (st system) (ensure_sorted srt (LinExp l)) 1 of
        Inl e \<Rightarrow> Inl e
      | Inr (tbl, le) \<Rightarrow> Inr (system\<lparr>st := tbl\<rparr>, Variable le))"

subsection \<open>Constraints\<close>

text \<open>
  \<open>addConstraint(r1c, debugID...)\<close>: the optional debug ID is an option.
\<close>

definition addConstraint :: "compiler \<Rightarrow> R1C \<Rightarrow> nat option \<Rightarrow> compiler" where
  "addConstraint system r1c debugID =
     (let system' = system\<lparr>Constraints := Constraints system @ [r1c]\<rparr>
      in case debugID of
           None \<Rightarrow> system'
         | Some d \<Rightarrow> system'\<lparr>MDebug := fmupd (length (Constraints system') - 1) d (MDebug system')\<rparr>)"

subsection \<open>Constants and the boolean-fact table\<close>

text \<open>
  A \<open>frontend.Variable\<close> is an empty interface: a \<open>compiled.Variable\<close>, a
  \<open>compiled.LinearExpression\<close>, or a value that \<open>utils.FromInterface\<close>
  converts to a \<open>big.Int\<close> (held here as converted).
\<close>

datatype frontend_Variable =
  Var Variable
| LinExpr LinearExpression
| Constant int

text \<open>
  Modelled from the spec: \<open>AssertIsSet\<close> of \<open>compiled.Variable\<close> is not among
  the sources; an expression with no term is unset, and asserting on it is a usage
  error. \<open>utils.FromInterface\<close> has no conversion for a linear expression.
  The result is \<open>Some\<close> of the value where the Go code returns \<open>true\<close>.
\<close>

definition ConstantValue :: "compiler \<Rightarrow> frontend_Variable \<Rightarrow> fault + int option" where
  "ConstantValue system v =
     (case v of
        Var v' \<Rightarrow>
          (if length (LinExp v') = 0 then Inl (Panic ''unset variable'')
           else if length (LinExp v') \<noteq> 1 then Inr None
           else
             (let (cID, vID, visibility) = Unpack (LinExp v' ! 0)
              in if \<not> (vID = 0 \<and> visibility = schema_Public) then Inr None
                 else
                   (case index (Coeffs (st system)) cID of
                      Inl e \<Rightarrow> Inl e
                    | Inr c \<Rightarrow> Inr (Some c))))
      | LinExpr l \<Rightarrow> Inl (Panic ''FromInterface: unsupported type'')
      | Constant r \<Rightarrow> Inr (Some r))"

definition IsUint64 :: "int \<Rightarrow> bool" where
  "IsUint64 b = (0 \<le> b \<and> b < 2 ^ 64)"

text \<open>
  \<open>MarkBoolean\<close> and \<open>IsBoolean\<close> take the hash of linear expressions
  (\<open>LinearExpression.HashCode\<close>, not among the sources) as the parameter
  \<open>hashCode\<close>. Both sort the expression of their argument in place: they return
  it as they leave it. \<open>Equal\<close> of two sorted expressions is equality of the
  lists of terms.
\<close>

definition MarkBoolean ::
  "(Term list \<Rightarrow> Term list) \<Rightarrow> (Term list \<Rightarrow> 64 word) \<Rightarrow> compiler \<Rightarrow> frontend_Variable
   \<Rightarrow> fault + compiler \<times> frontend_Variable" where
  "MarkBoolean srt hashCode system v =
     (case ConstantValue system v of
        Inl e \<Rightarrow> Inl e
      | Inr (Some b) \<Rightarrow>
          (if \<not> (IsUint64 b \<and> b \<le> 1)
           then Inl (Panic ''MarkBoolean called a non-boolean constant'')
           else Inr (system, v))
      | Inr None \<Rightarrow>
          (case v of
             Var v' \<Rightarrow>
               (let l = ensure_sorted srt (LinExp v');
                    key = hashCode l;
                    list = (case mtBooleans system key of None \<Rightarrow> [] | Some ls \<Rightarrow> ls)
                in Inr (system\<lparr>mtBooleans := (mtBooleans system)(key \<mapsto> list @ [l])\<rparr>,
                        Var (Variable l)))
           | _ \<Rightarrow> Inl (Panic ''interface conversion'')))"

definition IsBoolean ::
  "(Term list \<Rightarrow> Term list) \<Rightarrow> (Term list \<Rightarrow> 64 word) \<Rightarrow> compiler \<Rightarrow> frontend_Variable
   \<Rightarrow> fault + bool \<times> frontend_Variable" where
  "IsBoolean srt hashCode system v =
     (case ConstantValue system v of
        Inl e \<Rightarrow> Inl e
      | Inr (Some b) \<Rightarrow> Inr (IsUint64 b \<and> b \<le> 1, v)
      | Inr None \<Rightarrow>
          (case v of
             Var v' \<Rightarrow>
               (let l = ensure_sorted srt (LinExp v');
                    key = hashCode l
                in case mtBooleans system key of
                     None \<Rightarrow> Inr (False, Var (Variable l))
                   | Some list \<Rightarrow> Inr (list_ex (\<lambda>v. v = l) list, Var (Variable l)))
           | _ \<Rightarrow> Inl (Panic ''interface conversion'')))"

subsection \<open>checkVariables\<close>

record checker =
  secretConstrained :: "bool list"
  publicConstrained :: "bool list"
  mHintsConstrained :: "(nat, bool) fmap"
  cptSecret :: int
  cptPublic :: int
  cptHints :: int

text \<open>The body of the loop over the terms in \<open>processLinearExpression\<close>.\<close>

definition processTerm :: "compiler \<Rightarrow> checker \<Rightarrow> Term \<Rightarrow> fault + checker" where
  "processTerm system c t =
     (if CoeffID t = CoeffIdZero then Inr c
      else
        (let visibility = VariableVisibility t; vID = WireID t
         in case visibility of
              schema_Public \<Rightarrow>
                (if vID \<noteq> 0 then
                   (case index (publicConstrained c) vID of
                      Inl e \<Rightarrow> Inl e
                    | Inr seen \<Rightarrow>
                        (if \<not> seen
                         then Inr (c\<lparr>publicConstrained := (publicConstrained c)[vID := True],
                                     cptPublic := cptPublic c - 1\<rparr>)
                         else Inr c))
                 else Inr c)
            | schema_Secret \<Rightarrow>
                (case index (secretConstrained c) vID of
                   Inl e \<Rightarrow> Inl e
                 | Inr seen \<Rightarrow>
                     (if \<not> seen
                      then Inr (c\<lparr>secretConstrained := (secretConstrained c)[vID := True],
                                  cptSecret := cptSecret c - 1\<rparr>)
                      else Inr c))
            | schema_Internal \<Rightarrow>
                (if fmlookup (mHintsConstrained c) vID \<noteq> Some True
                    \<and> fmlookup (MHints system) vID \<noteq> None
                 then Inr (c\<lparr>mHintsConstrained := fmupd vID True (mHintsConstrained c),
                             cptHints := cptHints c - 1\<rparr>)
                 else Inr c)
            | schema_Unset \<Rightarrow> Inr c))"

fun processLinearExpression :: "compiler \<Rightarrow> checker \<Rightarrow> Term list \<Rightarrow> fault + checker" where
  "processLinearExpression system c [] = Inr c"
| "processLinearExpression system c (t # l) =
     (case processTerm system c t of
        Inl e \<Rightarrow> Inl e
      | Inr c' \<Rightarrow> processLinearExpression system c' l)"

text \<open>
  The loop over the constraints; the flag says whether it left by
  \<open>return nil\<close>.
\<close>

fun check_constraints :: "compiler \<Rightarrow> checker \<Rightarrow> R1C list \<Rightarrow> fault + checker \<times> bool" where
  "check_constraints system c [] = Inr (c, False)"
| "check_constraints system c (r1c # rest) =
     (case processLinearExpression system c (LinExp (R1C_L r1c)) of
        Inl e \<Rightarrow> Inl e
      | Inr c1 \<Rightarrow>
          (case processLinearExpression system c1 (LinExp (R1C_R r1c)) of
             Inl e \<Rightarrow> Inl e
           | Inr c2 \<Rightarrow>
               (case processLinearExpression system c2 (LinExp (R1C_O r1c)) of
                  Inl e \<Rightarrow> Inl e
                | Inr c3 \<Rightarrow>
                    (if (cptHints c3 OR cptSecret c3 OR cptPublic c3) = 0
                     then Inr (c3, True)
                     else check_constraints system c3 rest))))"

function digits :: "nat \<Rightarrow> string" where
  "digits n =
     (if n < 10 then [char_of (48 + n)]
      else digits (n div 10) @ [char_of (48 + n mod 10)])"
  by pat_completeness auto
termination
  by (relation "measure (\<lambda>n. n)") auto

definition Itoa :: "int \<Rightarrow> string" where
  "Itoa n = (if n < 0 then CHR ''-'' # digits (nat (- n)) else digits (nat n))"

definition newline :: char where
  "newline = CHR 0x0A"

text \<open>
  The loops \<open>for i := 0; i < len(constrained) && cpt != 0; i++\<close> that write the
  names of the inputs not seen; the string builder and the counter are the state.
\<close>

function write_unconstrained ::
  "bool list \<Rightarrow> string list \<Rightarrow> nat \<Rightarrow> int \<Rightarrow> string \<Rightarrow> fault + string \<times> int" where
  "write_unconstrained constrained names i cpt sbb =
     (if i < length constrained \<and> cpt \<noteq> 0 then
        (if \<not> constrained ! i then
           (case index names i of
              Inl e \<Rightarrow> Inl e
            | Inr name \<Rightarrow>
                write_unconstrained constrained names (i + 1) (cpt - 1) (sbb @ name @ [newline]))
         else write_unconstrained constrained names (i + 1) cpt sbb)
      else Inr (sbb, cpt))"
  by pat_completeness auto
termination
  by (relation "measure (\<lambda>(constrained, names, i, cpt, sbb). length constrained - i)") auto

definition write_secret :: "compiler \<Rightarrow> checker \<Rightarrow> string \<Rightarrow> fault + string" where
  "write_secret system c sbb =
     (if cptSecret c \<noteq> 0 then
        (case write_unconstrained (secretConstrained c) (Secret system) 0 (cptSecret c)
                (sbb @ Itoa (cptSecret c) @ '' unconstrained secret input(s):'' @ [newline]) of
           Inl e \<Rightarrow> Inl e
         | Inr (sbb', cpt) \<Rightarrow> Inr (sbb' @ [newline]))
      else Inr sbb)"

definition write_public :: "compiler \<Rightarrow> checker \<Rightarrow> string \<Rightarrow> fault + string" where
  "write_public system c sbb =
     (if cptPublic c \<noteq> 0 then
        (case write_unconstrained (publicConstrained c) (Public system) 0 (cptPublic c)
                (sbb @ Itoa (cptPublic c) @ '' unconstrained public input(s):'' @ [newline]) of
           Inl e \<Rightarrow> Inl e
         | Inr (sbb', cpt) \<Rightarrow> Inr (sbb' @ [newline]))
      else Inr sbb)"

definition write_hints :: "checker \<Rightarrow> string \<Rightarrow> string" where
  "write_hints c sbb =
     (if cptHints c \<noteq> 0
      then sbb @ Itoa (cptHints c) @ '' unconstrained hints'' @ [newline]
      else sbb)"

text \<open>
  \<open>checkVariables\<close> returns \<open>Inr ()\<close> for \<open>nil\<close> and \<open>Inl (Error s)\<close> for the
  error \<open>errors.New(s)\<close>.
\<close>

definition checkVariables :: "compiler \<Rightarrow> fault + unit" where
  "checkVariables system =
     (let publicConstrained0 = replicate (length (Public system)) False
      in if length publicConstrained0 = 0 then Inl IndexOutOfRange
         else
           (let c0 = \<lparr>secretConstrained = replicate (length (Secret system)) False,
                      publicConstrained = publicConstrained0[0 := True],
                      mHintsConstrained = fmempty,
                      cptSecret = int (length (Secret system)),
                      cptPublic = int (length (Public system)) - 1,
                      cptHints = int (len (MHints system))\<rparr>
            in case check_constraints system c0 (Constraints system) of
                 Inl e \<Rightarrow> Inl e
               | Inr (c, stopped) \<Rightarrow>
                   (if stopped then Inr ()
                    else
                      (case write_secret system c [] of
                         Inl e \<Rightarrow> Inl e
                       | Inr sbb1 \<Rightarrow>
                           (case write_public system c sbb1 of
                              Inl e \<Rightarrow> Inl e
                            | Inr sbb2 \<Rightarrow> Inl (Error (write_hints c sbb2)))))))"

subsection \<open>NewHint\<close>

text \<open>
  The conversion of one input in \<open>NewHint\<close>: a variable's expression is cloned,
  a linear expression is copied, anything else is converted to a constant.
\<close>

definition hint_input :: "frontend_Variable \<Rightarrow> HintInput" where
  "hint_input inp =
     (case inp of
        Var t \<Rightarrow> InLinearExpression (LinExp (Clone t))
      | LinExpr t \<Rightarrow> InLinearExpression (map (\<lambda>x. x) t)
      | Constant k \<Rightarrow> InConstant k)"

text \<open>
  The loop \<open>for i := range varIDs\<close>: one fresh internal variable for each
  output, in order.
\<close>

fun prepare_wires :: "compiler \<Rightarrow> nat \<Rightarrow> compiler \<times> nat list \<times> Variable list" where
  "prepare_wires system 0 = (system, [], [])"
| "prepare_wires system (Suc n) =
     (let (system1, r) = newInternalVariable system;
          (cID, vID, vis) = Unpack (LinExp r ! 0);
          (system2, varIDs, res) = prepare_wires system1 n
      in (system2, vID # varIDs, r # res))"

text \<open>\<open>f\<close> is the hint function's identifier, \<open>f.UUID()\<close>.\<close>

definition NewHint ::
  "compiler \<Rightarrow> nat \<Rightarrow> int \<Rightarrow> frontend_Variable list \<Rightarrow> fault + compiler \<times> Variable list" where
  "NewHint system f nbOutputs inputs =
     (if nbOutputs \<le> 0 then Inl (Error ''hint function must return at least one output'')
      else
        (let hintInputs = map hint_input inputs;
             (system', varIDs, res) = prepare_wires system (nat nbOutputs);
             ch = \<lparr>ID = f, Inputs = hintInputs, Wires = varIDs\<rparr>
         in Inr (system'\<lparr>MHints := fold (\<lambda>vID m. fmupd vID ch m) varIDs (MHints system')\<rparr>,
                 res)))"

section \<open>The level builder\<close>

record levelBuilder =
  ccs :: R1CS
  nbInputs :: nat
  mWireToNode :: "(nat, nat) fmap"
  nodeLevels :: "nat list"
  mLevels :: "(nat, nat) fmap"
  nodeLevel :: nat

text \<open>
  \<open>processLE\<close> calls itself on the inputs of a hint before it marks the hint's
  wires, so it does not return on a hint map in which a hint's inputs lead back to
  its own outputs. \<open>fuel\<close> bounds the depth of these nested calls;
  \<open>processInputs\<close> is the loop over \<open>h.Inputs\<close>.
\<close>

fun processLE :: "nat \<Rightarrow> levelBuilder \<Rightarrow> Term list \<Rightarrow> nat \<Rightarrow> fault + levelBuilder"
  and processInputs :: "nat \<Rightarrow> levelBuilder \<Rightarrow> HintInput list \<Rightarrow> nat \<Rightarrow> fault + levelBuilder" where
  "processLE fuel b [] cID = Inr b"
| "processLE fuel b (t # l) cID =
     (let wID = WireID t
      in if wID < nbInputs b then processLE fuel b l cID
         else
           (case fmlookup (mWireToNode b) wID of
              Some n \<Rightarrow>
                (if n \<noteq> cID then
                   (case index (nodeLevels b) n of
                      Inl e \<Rightarrow> Inl e
                    | Inr ln \<Rightarrow>
                        (if ln \<ge> nodeLevel b
                         then processLE fuel (b\<lparr>nodeLevel := ln + 1\<rparr>) l cID
                         else processLE fuel b l cID))
                 else processLE fuel b l cID)
            | None \<Rightarrow>
                (case fmlookup (MHints (ccs b)) wID of
                   Some h \<Rightarrow>
                     (case fuel of
                        0 \<Rightarrow> Inl OutOfFuel
                      | Suc fuel' \<Rightarrow>
                          (case processInputs fuel' b (Inputs h) cID of
                             Inl e \<Rightarrow> Inl e
                           | Inr b' \<Rightarrow>
                               processLE fuel
                                 (b'\<lparr>mWireToNode :=
                                       fold (\<lambda>hwid m. fmupd hwid cID m) (Wires h) (mWireToNode b')\<rparr>)
                                 l cID))
                 | None \<Rightarrow>
                     processLE fuel (b\<lparr>mWireToNode := fmupd wID cID (mWireToNode b)\<rparr>) l cID)))"
| "processInputs fuel b [] cID = Inr b"
| "processInputs fuel b (inp # ins) cID =
     (case (case inp of
              InVariable t \<Rightarrow> processLE fuel b (LinExp t) cID
            | InLinearExpression t \<Rightarrow> processLE fuel b t cID
            | InTerm t \<Rightarrow> processLE fuel b [t] cID
            | InConstant k \<Rightarrow> Inr b) of
        Inl e \<Rightarrow> Inl e
      | Inr b' \<Rightarrow> processInputs fuel b' ins cID)"

text \<open>The body of the loop over the constraints in \<open>buildLevels\<close>.\<close>

definition process_constraint :: "nat \<Rightarrow> levelBuilder \<Rightarrow> R1C \<Rightarrow> nat \<Rightarrow> fault + levelBuilder" where
  "process_constraint fuel b c cID =
     (case processLE fuel (b\<lparr>nodeLevel := 0\<rparr>) (LinExp (R1C_L c)) cID of
        Inl e \<Rightarrow> Inl e
      | Inr b1 \<Rightarrow>
          (case processLE fuel b1 (LinExp (R1C_R c)) cID of
             Inl e \<Rightarrow> Inl e
           | Inr b2 \<Rightarrow>
               (case processLE fuel b2 (LinExp (R1C_O c)) cID of
                  Inl e \<Rightarrow> Inl e
                | Inr b3 \<Rightarrow>
                    (if cID < length (nodeLevels b3) then
                       Inr (b3\<lparr>nodeLevels := (nodeLevels b3)[cID := nodeLevel b3],
                                mLevels :=
                                  fmupd (nodeLevel b3)
                                    (case fmlookup (mLevels b3) (nodeLevel b3) of
                                       None \<Rightarrow> 1
                                     | Some k \<Rightarrow> k + 1)
                                    (mLevels b3)\<rparr>)
                     else Inl IndexOutOfRange))))"

fun process_constraints :: "nat \<Rightarrow> levelBuilder \<Rightarrow> R1C list \<Rightarrow> nat \<Rightarrow> fault + levelBuilder" where
  "process_constraints fuel b [] cID = Inr b"
| "process_constraints fuel b (c # cs) cID =
     (case process_constraint fuel b c cID of
        Inl e \<Rightarrow> Inl e
      | Inr b' \<Rightarrow> process_constraints fuel b' cs (cID + 1))"

text \<open>
  The loop \<open>for n, l := range b.nodeLevels { levels[l] = append(levels[l], n) }\<close>.
\<close>

fun fill_levels :: "nat list list \<Rightarrow> nat list \<Rightarrow> nat \<Rightarrow> fault + nat list list" where
  "fill_levels levels [] n = Inr levels"
| "fill_levels levels (l # ls) n =
     (if l < length levels then fill_levels (levels[l := levels ! l @ [n]]) ls (n + 1)
      else Inl IndexOutOfRange)"

definition newLevelBuilder :: "R1CS \<Rightarrow> levelBuilder" where
  "newLevelBuilder r =
     \<lparr>ccs = r,
      nbInputs = NbPublicVariables r + NbSecretVariables r,
      mWireToNode = fmempty,
      nodeLevels = replicate (length (Constraints r)) 0,
      mLevels = fmempty,
      nodeLevel = 0\<rparr>"

text \<open>The builder as the first loop of \<open>buildLevels\<close> leaves it.\<close>

definition buildLevels_builder :: "nat \<Rightarrow> R1CS \<Rightarrow> fault + levelBuilder" where
  "buildLevels_builder fuel r = process_constraints fuel (newLevelBuilder r) (Constraints r) 0"

definition buildLevels :: "nat \<Rightarrow> R1CS \<Rightarrow> fault + nat list list" where
  "buildLevels fuel r =
     (case buildLevels_builder fuel r of
        Inl e \<Rightarrow> Inl e
      | Inr b \<Rightarrow> fill_levels (replicate (len (mLevels b)) []) (nodeLevels b) 0)"

subsection \<open>The steps of the level builder\<close>

text \<open>The terms of a constraint in the order \<open>buildLevels\<close> scans them: \<open>L\<close>, \<open>R\<close>, \<open>O\<close>.\<close>

definition terms_of :: "R1C \<Rightarrow> Term list" where
  "terms_of c = LinExp (R1C_L c) @ LinExp (R1C_R c) @ LinExp (R1C_O c)"

text \<open>
  One pass through the body of the loop \<open>for _, t := range l\<close> of \<open>processLE\<close>,
  for the term \<open>t\<close>.
\<close>

definition process_term :: "nat \<Rightarrow> levelBuilder \<Rightarrow> Term \<Rightarrow> nat \<Rightarrow> fault + levelBuilder" where
  "process_term fuel b t cID =
     (let wID = WireID t
      in if wID < nbInputs b then Inr b
         else
           (case fmlookup (mWireToNode b) wID of
              Some n \<Rightarrow>
                (if n \<noteq> cID then
                   (case index (nodeLevels b) n of
                      Inl e \<Rightarrow> Inl e
                    | Inr ln \<Rightarrow> Inr (if ln \<ge> nodeLevel b then b\<lparr>nodeLevel := ln + 1\<rparr> else b))
                 else Inr b)
            | None \<Rightarrow>
                (case fmlookup (MHints (ccs b)) wID of
                   Some h \<Rightarrow>
                     (case fuel of
                        0 \<Rightarrow> Inl OutOfFuel
                      | Suc fuel' \<Rightarrow>
                          (case processInputs fuel' b (Inputs h) cID of
                             Inl e \<Rightarrow> Inl e
                           | Inr b' \<Rightarrow>
                               Inr (b'\<lparr>mWireToNode :=
                                         fold (\<lambda>hwid m. fmupd hwid cID m) (Wires h) (mWireToNode b')\<rparr>)))
                 | None \<Rightarrow> Inr (b\<lparr>mWireToNode := fmupd wID cID (mWireToNode b)\<rparr>))))"

text \<open>The terms \<open>processLE\<close> is called on for one input of a hint.\<close>

definition input_terms :: "HintInput \<Rightarrow> Term list" where
  "input_terms inp =
     (case inp of
        InVariable t \<Rightarrow> LinExp t
      | InLinearExpression t \<Rightarrow> t
      | InTerm t \<Rightarrow> [t]
      | InConstant k \<Rightarrow> [])"

text \<open>
  What a call of \<open>processLE\<close> for the constraint \<open>cID\<close> may change: the candidate
  level grows, and only to the successor of the level of a constraint that resolved a
  wire; an entry of \<open>mWireToNode\<close> is kept or set to \<open>cID\<close>.
\<close>

definition level_step :: "nat \<Rightarrow> levelBuilder \<Rightarrow> levelBuilder \<Rightarrow> bool" where
  "level_step cID b b' =
     (ccs b' = ccs b \<and> nbInputs b' = nbInputs b \<and> nodeLevels b' = nodeLevels b
      \<and> mLevels b' = mLevels b \<and> nodeLevel b \<le> nodeLevel b'
      \<and> (\<forall>w. fmlookup (mWireToNode b') w = fmlookup (mWireToNode b) w
              \<or> fmlookup (mWireToNode b') w = Some cID)
      \<and> (nodeLevel b' = nodeLevel b
           \<or> (\<exists>w n. fmlookup (mWireToNode b) w = Some n \<and> n \<noteq> cID
                  \<and> n < length (nodeLevels b) \<and> nodeLevel b' = nodeLevels b ! n + 1)))"

text \<open>
  The state of the builder after the constraints \<open>pre\<close>: wires are resolved by
  constraints of \<open>pre\<close>, a wire resolved by an earlier constraint lies on a lower
  level, every level is \<open>0\<close> or the successor of the level of an earlier
  constraint, and \<open>mLevels\<close> counts the levels in use.
\<close>

definition levels_inv :: "R1C list \<Rightarrow> levelBuilder \<Rightarrow> bool" where
  "levels_inv pre b =
     ((\<forall>w n. fmlookup (mWireToNode b) w = Some n \<longrightarrow> n < length pre)
      \<and> (\<forall>c < length pre. \<forall>t \<in> set (terms_of (pre ! c)).
            nbInputs b \<le> WireID t \<longrightarrow>
            (\<forall>n. fmlookup (mWireToNode b) (WireID t) = Some n \<and> n < c \<longrightarrow>
                 nodeLevels b ! n < nodeLevels b ! c))
      \<and> (\<forall>c < length pre.
            nodeLevels b ! c = 0 \<or> (\<exists>n < c. nodeLevels b ! c = nodeLevels b ! n + 1))
      \<and> fmdom' (mLevels b) = (\<lambda>c. nodeLevels b ! c) ` {..<length pre})"

text \<open>
  Every input of a hint refers to wires below the hint's own output wires; then the
  nested calls of \<open>processLE\<close> end.
\<close>

definition hints_descend :: "R1CS \<Rightarrow> bool" where
  "hints_descend r =
     (\<forall>w h. fmlookup (MHints r) w = Some h \<longrightarrow>
        (\<forall>inp \<in> set (Inputs h). \<forall>t \<in> set (input_terms inp). WireID t < w))"

text \<open>The indices \<open>processLE\<close> reads \<open>nodeLevels\<close> at are in range.\<close>

definition nodes_in_range :: "levelBuilder \<Rightarrow> nat \<Rightarrow> bool" where
  "nodes_in_range b cID =
     ((\<forall>w n. fmlookup (mWireToNode b) w = Some n \<longrightarrow> n < length (nodeLevels b))
      \<and> cID < length (nodeLevels b))"

section \<open>Compile\<close>

definition shiftVID :: "R1CS \<Rightarrow> nat \<Rightarrow> Visibility \<Rightarrow> nat" where
  "shiftVID res oldID visibility =
     (case visibility of
        schema_Internal \<Rightarrow> oldID + NbPublicVariables res + NbSecretVariables res
      | schema_Public \<Rightarrow> oldID
      | schema_Secret \<Rightarrow> oldID + NbPublicVariables res
      | schema_Unset \<Rightarrow> oldID)"

definition offsetIDs :: "R1CS \<Rightarrow> LinearExpression \<Rightarrow> LinearExpression" where
  "offsetIDs res l =
     map (\<lambda>t. let (cID, vID, visibility) = Unpack t
              in SetWireID (shiftVID res vID visibility) t) l"

definition offset_constraint :: "R1CS \<Rightarrow> R1C \<Rightarrow> R1C" where
  "offset_constraint res c =
     \<lparr>R1C_L = Variable (offsetIDs res (LinExp (R1C_L c))),
      R1C_R = Variable (offsetIDs res (LinExp (R1C_R c))),
      R1C_O = Variable (offsetIDs res (LinExp (R1C_O c)))\<rparr>"

text \<open>The switch over the type of a hint input in the hint loop.\<close>

definition offset_input :: "R1CS \<Rightarrow> HintInput \<Rightarrow> HintInput" where
  "offset_input res inp =
     (case inp of
        InVariable t \<Rightarrow> InLinearExpression (offsetIDs res (LinExp t))
      | InLinearExpression t \<Rightarrow> InLinearExpression (offsetIDs res t)
      | InTerm t \<Rightarrow> InTerm t
      | InConstant k \<Rightarrow> InConstant k)"

text \<open>
  The body of the loop labelled \<open>HINTLOOP\<close>: the hint is skipped when its first
  shifted wire is in the shifted map already.
\<close>

definition offset_hint :: "R1CS \<Rightarrow> (nat, Hint) fmap \<Rightarrow> Hint \<Rightarrow> (nat, Hint) fmap" where
  "offset_hint res shiftedMap hint =
     (let ws = map (\<lambda>vID. shiftVID res vID schema_Internal) (Wires hint)
      in if ws \<noteq> [] \<and> fmlookup shiftedMap (ws ! 0) \<noteq> None then shiftedMap
         else
           (let inputs = map (offset_input res) (Inputs hint);
                ch = \<lparr>ID = ID hint, Inputs = inputs, Wires = ws\<rparr>
            in fold (\<lambda>vID m. fmupd vID ch m) ws shiftedMap))"

text \<open>
  \<open>for _, hint := range cs.MHints\<close>: Go leaves the order of the keys open, so the
  order in which the run meets them is the list \<open>ks\<close>, an enumeration of the
  map's keys.
\<close>

definition enumerates :: "nat list \<Rightarrow> (nat, 'v) fmap \<Rightarrow> bool" where
  "enumerates ks m = (distinct ks \<and> set ks = fmdom' m)"

definition HINTLOOP :: "R1CS \<Rightarrow> (nat, Hint) fmap \<Rightarrow> nat list \<Rightarrow> (nat, Hint) fmap" where
  "HINTLOOP res hints ks =
     fold (\<lambda>k shiftedMap.
             case fmlookup hints k of
               None \<Rightarrow> shiftedMap
             | Some hint \<Rightarrow> offset_hint res shiftedMap hint)
          ks fmempty"

definition offset_log :: "R1CS \<Rightarrow> LogEntry \<Rightarrow> LogEntry" where
  "offset_log res e = e\<lparr>ToResolve := offsetIDs res (ToResolve e)\<rparr>"

text \<open>
  The constraint system of the curve (\<open>NewR1CS(res, cs.st.Coeffs)\<close> of the
  curve's backend, not among the sources) is the pair of its two arguments.
\<close>

definition supported_curve :: "ecc_ID \<Rightarrow> bool" where
  "supported_curve c =
     (case c of
        BLS12_377 \<Rightarrow> True
      | BLS12_381 \<Rightarrow> True
      | BN254 \<Rightarrow> True
      | BW6_761 \<Rightarrow> True
      | BW6_633 \<Rightarrow> True
      | BLS24_315 \<Rightarrow> True
      | UNKNOWN \<Rightarrow> False)"

definition Compile :: "nat \<Rightarrow> nat list \<Rightarrow> compiler \<Rightarrow> fault + R1CS \<times> int list" where
  "Compile fuel ks cs =
     (case (if \<not> IgnoreUnconstrainedInputs (config cs) then checkVariables cs else Inr ()) of
        Inl e \<Rightarrow> Inl e
      | Inr u \<Rightarrow>
          (let res0 = (R1CS.truncate cs)\<lparr>NbPublicVariables := length (Public cs),
                                         NbSecretVariables := length (Secret cs)\<rparr>;
               res1 = res0\<lparr>Constraints := map (offset_constraint res0) (Constraints res0)\<rparr>;
               res2 = res1\<lparr>MHints := HINTLOOP res0 (MHints cs) ks\<rparr>;
               res3 = res2\<lparr>Logs := map (offset_log res0) (Logs res2),
                           DebugInfo := map (offset_log res0) (DebugInfo res2)\<rparr>
           in case buildLevels fuel res3 of
                Inl e \<Rightarrow> Inl e
              | Inr levels \<Rightarrow>
                  (if supported_curve (CurveID cs)
                   then Inr (res3\<lparr>Levels := levels\<rparr>, Coeffs (st cs))
                   else Inl (Panic ''not implemtented''))))"

section \<open>The GKR addition gate\<close>

text \<open>
  Field elements (\<open>fr.Element\<close>) are the residues modulo the scalar field's
  modulus \<open>q\<close>, which the gate's source takes from an external library; \<open>q\<close> is
  a parameter.
\<close>

definition fr_Add :: "int \<Rightarrow> int \<Rightarrow> int \<Rightarrow> int" where
  "fr_Add q a b = (a + b) mod q"

text \<open>The loop \<open>for i := 2; i < len(x); i++ { res.Add(&res, &x[2]) }\<close>.\<close>

function addGate_loop :: "int \<Rightarrow> int list \<Rightarrow> nat \<Rightarrow> int \<Rightarrow> fault + int" where
  "addGate_loop q x i res =
     (if i < length x then
        (case index x 2 of
           Inl e \<Rightarrow> Inl e
         | Inr x2 \<Rightarrow> addGate_loop q x (i + 1) (fr_Add q res x2))
      else Inr res)"
  by pat_completeness auto
termination
  by (relation "measure (\<lambda>(q, x, i, res). length x - i)") auto

definition addGate_Evaluate :: "int \<Rightarrow> int list \<Rightarrow> fault + int" where
  "addGate_Evaluate q x =
     (if length x = 0 then Inr 0
      else if length x = 1 then index x 0
      else if length x = 2 then
        (case index x 0 of
           Inl e \<Rightarrow> Inl e
         | Inr x0 \<Rightarrow>
             (case index x 1 of
                Inl e \<Rightarrow> Inl e
              | Inr x1 \<Rightarrow> addGate_loop q x 2 (fr_Add q x0 x1)))
      else Inr 0)"

subsection \<open>The hint map\<close>

text \<open>
  The shape in which \<open>NewHint\<close> leaves the hint map: a hint is stored under
  each of its output wires and under no other key. \<open>offset_hint_record\<close> is the
  record that the hint loop builds from a hint, and \<open>shifted_so_far\<close> the
  shifted map after the hints of the set \<open>S\<close> have been met.
\<close>

definition hints_wf :: "(nat, Hint) fmap \<Rightarrow> bool" where
  "hints_wf m =
     (\<forall>k h. fmlookup m k = Some h \<longrightarrow>
        k \<in> set (Wires h) \<and> (\<forall>w \<in> set (Wires h). fmlookup m w = Some h))"

definition offset_hint_record :: "R1CS \<Rightarrow> Hint \<Rightarrow> Hint" where
  "offset_hint_record res h =
     \<lparr>ID = ID h, Inputs = map (offset_input res) (Inputs h),
      Wires = map (\<lambda>vID. shiftVID res vID schema_Internal) (Wires h)\<rparr>"

definition shifted_so_far :: "R1CS \<Rightarrow> (nat, Hint) fmap \<Rightarrow> Hint set \<Rightarrow> nat \<Rightarrow> Hint option" where
  "shifted_so_far res m S k' =
     (let n = NbPublicVariables res + NbSecretVariables res
      in if n \<le> k' then
           (case fmlookup m (k' - n) of
              Some h \<Rightarrow> if h \<in> S then Some (offset_hint_record res h) else None
            | None \<Rightarrow> None)
         else None)"

section \<open>Runs of the builder\<close>

text \<open>
  The calls of the builder that change its state, with their arguments, and the
  state after a sequence of them; a call that panics or returns an error ends the
  run. \<open>hints_inv\<close> holds of every state a run reaches from
  \<open>newCompiler\<close>.
\<close>

datatype call =
  Call_AddPublicVariable string
| Call_AddSecretVariable string
| Call_SetSchema Schema
| Call_newInternalVariable
| Call_reduce Variable
| Call_addConstraint Variable Variable Variable "nat option"
| Call_MarkBoolean frontend_Variable
| Call_NewHint nat int "frontend_Variable list"

definition do_call ::
  "(Term list \<Rightarrow> Term list) \<Rightarrow> (Term list \<Rightarrow> 64 word) \<Rightarrow> int \<Rightarrow> compiler \<Rightarrow> call
   \<Rightarrow> fault + compiler" where
  "do_call srt hashCode q system c =
     (case c of
        Call_AddPublicVariable name \<Rightarrow> map_sum (\<lambda>e. e) fst (AddPublicVariable system name)
      | Call_AddSecretVariable name \<Rightarrow> map_sum (\<lambda>e. e) fst (AddSecretVariable system name)
      | Call_SetSchema s \<Rightarrow> SetSchema system s
      | Call_newInternalVariable \<Rightarrow> Inr (fst (newInternalVariable system))
      | Call_reduce l \<Rightarrow> map_sum (\<lambda>e. e) fst (reduce srt q system l)
      | Call_addConstraint l r out debugID \<Rightarrow> Inr (addConstraint system (newR1C l r out) debugID)
      | Call_MarkBoolean v \<Rightarrow> map_sum (\<lambda>e. e) fst (MarkBoolean srt hashCode system v)
      | Call_NewHint f nbOutputs inputs \<Rightarrow> map_sum (\<lambda>e. e) fst (NewHint system f nbOutputs inputs))"

fun run ::
  "(Term list \<Rightarrow> Term list) \<Rightarrow> (Term list \<Rightarrow> 64 word) \<Rightarrow> int \<Rightarrow> compiler \<Rightarrow> call list
   \<Rightarrow> fault + compiler" where
  "run srt hashCode q system [] = Inr system"
| "run srt hashCode q system (c # cs) =
     (case do_call srt hashCode q system c of
        Inl e \<Rightarrow> Inl e
      | Inr system' \<Rightarrow> run srt hashCode q system' cs)"

definition hints_inv :: "compiler \<Rightarrow> bool" where
  "hints_inv system =
     (hints_wf (MHints system) \<and> (\<forall>k \<in> fmdom' (MHints system). k < NbInternalVariables system))"

text \<open>
  The part of \<open>Compile\<close> between the check of the variables and the levels:
  the system with every wire ID offset (\<open>Compile_eq\<close>).
\<close>

definition offset_system :: "nat list \<Rightarrow> compiler \<Rightarrow> R1CS" where
  "offset_system ks cs =
     (let res0 = (R1CS.truncate cs)\<lparr>NbPublicVariables := length (Public cs),
                                    NbSecretVariables := length (Secret cs)\<rparr>;
          res1 = res0\<lparr>Constraints := map (offset_constraint res0) (Constraints res0)\<rparr>;
          res2 = res1\<lparr>MHints := HINTLOOP res0 (MHints cs) ks\<rparr>
      in res2\<lparr>Logs := map (offset_log res0) (Logs res2),
              DebugInfo := map (offset_log res0) (DebugInfo res2)\<rparr>)"

section \<open>Unconstrained inputs\<close>

text \<open>
  A wire is constrained when a term of some stored constraint references it with
  a coefficient other than the reserved zero; an input is unconstrained when it is
  a secret input, a public input other than the reserved wire 0, or a hint output
  that is not constrained.
\<close>

definition constrained :: "compiler \<Rightarrow> Visibility \<Rightarrow> nat \<Rightarrow> bool" where
  "constrained system vis w =
     (\<exists>c \<in> set (Constraints system).
        \<exists>t \<in> set (LinExp (R1C_L c) @ LinExp (R1C_R c) @ LinExp (R1C_O c)).
          CoeffID t \<noteq> CoeffIdZero \<and> VariableVisibility t = vis \<and> WireID t = w)"

definition some_unconstrained :: "compiler \<Rightarrow> bool" where
  "some_unconstrained system =
     ((\<exists>i < length (Secret system). \<not> constrained system schema_Secret i)
      \<or> (\<exists>i < length (Public system). i \<noteq> 0 \<and> \<not> constrained system schema_Public i)
      \<or> (\<exists>w \<in> fmdom' (MHints system). \<not> constrained system schema_Internal w))"

section \<open>An example\<close>

text \<open>The compiler as \<open>newCompiler\<close> returns it, for the examples below.\<close>

definition example_system :: compiler where
  "example_system = newCompiler BN254 \<lparr>Capacity = 0, IgnoreUnconstrainedInputs = False\<rparr>"

text \<open>
  A circuit with two more public and four secret inputs, a hint with two outputs
  and three constraints, as a run of calls, as the state the run reaches, and as
  \<open>Compile\<close> offsets it.
\<close>

definition example_calls :: "call list" where
  "example_calls =
     [Call_AddPublicVariable ''x'', Call_AddPublicVariable ''y'',
      Call_AddSecretVariable ''a'', Call_AddSecretVariable ''b'',
      Call_AddSecretVariable ''c'', Call_AddSecretVariable ''d'',
      Call_NewHint 9 2 [Var (Variable [Pack 2 1 schema_Secret])],
      Call_newInternalVariable, Call_newInternalVariable,
      Call_newInternalVariable, Call_newInternalVariable,
      Call_addConstraint (Variable [Pack 5 1 schema_Internal]) (Variable [Pack 2 1 schema_Secret])
        (Variable [Pack 1 1 schema_Public]) None,
      Call_addConstraint (Variable [Pack 0 1 schema_Internal]) (Variable [Pack 5 1 schema_Internal])
        (Variable [Pack 2 1 schema_Internal]) None,
      Call_addConstraint (Variable [Pack 2 1 schema_Public, Pack 0 1 schema_Secret])
        (Variable [Pack 1 1 schema_Secret, Pack 3 1 schema_Secret])
        (Variable [Pack 1 1 schema_Internal]) None]"

definition example_hint :: Hint where
  "example_hint = \<lparr>ID = 9, Inputs = [InLinearExpression [Pack 2 1 schema_Secret]], Wires = [0, 1]\<rparr>"

definition example_circuit :: compiler where
  "example_circuit =
     example_system
       \<lparr>NbInternalVariables := 6,
        Public := [''one'', ''x'', ''y''],
        Secret := [''a'', ''b'', ''c'', ''d''],
        MHints := fmupd 1 example_hint (fmupd 0 example_hint fmempty),
        Constraints :=
          [\<lparr>R1C_L = Variable [Pack 5 1 schema_Internal], R1C_R = Variable [Pack 2 1 schema_Secret],
            R1C_O = Variable [Pack 1 1 schema_Public]\<rparr>,
           \<lparr>R1C_L = Variable [Pack 0 1 schema_Internal], R1C_R = Variable [Pack 5 1 schema_Internal],
            R1C_O = Variable [Pack 2 1 schema_Internal]\<rparr>,
           \<lparr>R1C_L = Variable [Pack 2 1 schema_Public, Pack 0 1 schema_Secret],
            R1C_R = Variable [Pack 1 1 schema_Secret, Pack 3 1 schema_Secret],
            R1C_O = Variable [Pack 1 1 schema_Internal]\<rparr>]\<rparr>"

definition example_shifted_hint :: Hint where
  "example_shifted_hint = \<lparr>ID = 9, Inputs = [InLinearExpression [Pack 5 1 schema_Secret]], Wires = [7, 8]\<rparr>"

definition example_result :: R1CS where
  "example_result =
     (R1CS.truncate example_circuit)
       \<lparr>NbPublicVariables := 3, NbSecretVariables := 4,
        Constraints :=
          [\<lparr>R1C_L = Variable [Pack 12 1 schema_Internal], R1C_R = Variable [Pack 5 1 schema_Secret],
            R1C_O = Variable [Pack 1 1 schema_Public]\<rparr>,
           \<lparr>R1C_L = Variable [Pack 7 1 schema_Internal], R1C_R = Variable [Pack 12 1 schema_Internal],
            R1C_O = Variable [Pack 9 1 schema_Internal]\<rparr>,
           \<lparr>R1C_L = Variable [Pack 2 1 schema_Public, Pack 3 1 schema_Secret],
            R1C_R = Variable [Pack 4 1 schema_Secret, Pack 6 1 schema_Secret],
            R1C_O = Variable [Pack 8 1 schema_Internal]\<rparr>],
        MHints := fmupd 8 example_shifted_hint (fmupd 7 example_shifted_hint fmempty)\<rparr>"

section \<open>Properties\<close>

subsection \<open>The GKR addition gate\<close>

text \<open>
  C10. The addition gate's Evaluate never panics and sums at most two arguments:
  on no input it returns zero, on one input that input, on two inputs their sum
  in the field, and on three or more inputs zero, whatever the inputs are.
\<close>

theorem addGate_Evaluate_cases:
  "addGate_Evaluate q [] = Inr 0
   \<and> addGate_Evaluate q [a] = Inr a
   \<and> addGate_Evaluate q [a, b] = Inr (fr_Add q a b)
   \<and> (3 \<le> length x \<longrightarrow> addGate_Evaluate q x = Inr 0)
   \<and> (\<exists>r. addGate_Evaluate q x = Inr r)"
  by (auto simp: addGate_Evaluate_def index_def)

theorem addGate_Evaluate_cases_witness:
  "addGate_Evaluate 7 [] = Inr 0
   \<and> addGate_Evaluate 7 [5] = Inr 5
   \<and> addGate_Evaluate 7 [5, 4] = Inr 2
   \<and> 3 \<le> length [1, 2, 3 :: int]
   \<and> addGate_Evaluate 7 [1, 2, 3] = Inr 0
   \<and> fr_Add 7 (fr_Add 7 1 2) 3 = 6"
  using addGate_Evaluate_cases [of 7 5 4 "[1, 2, 3]"]
  by (simp add: fr_Add_def)

subsection \<open>The constraint builder\<close>

text \<open>
  C6. When \<open>L\<close> has strictly more terms than \<open>R\<close>, the constraint is built with
  the two factors swapped; otherwise they stay as given; in both cases the stored
  left factor has at most as many terms as the stored right factor, the stored
  expressions are copies of the inputs (equal term for term), and
  \<open>addConstraint\<close> stores the constraint at the end of the list.
\<close>

theorem newR1C_swap:
  "(length (LinExp l) > length (LinExp r) \<longrightarrow>
      newR1C l r out = \<lparr>R1C_L = r, R1C_R = l, R1C_O = out\<rparr>)
   \<and> (length (LinExp l) \<le> length (LinExp r) \<longrightarrow>
      newR1C l r out = \<lparr>R1C_L = l, R1C_R = r, R1C_O = out\<rparr>)
   \<and> length (LinExp (R1C_L (newR1C l r out))) \<le> length (LinExp (R1C_R (newR1C l r out)))
   \<and> Constraints (addConstraint system (newR1C l r out) d) = Constraints system @ [newR1C l r out]"
  by (auto simp: newR1C_def Clone_def addConstraint_def Let_def split: option.splits)

theorem newR1C_swap_witness:
  "length (LinExp (Variable [Pack 1 1 schema_Public, Pack 0 1 schema_Secret]))
     > length (LinExp (Variable [Pack 0 1 schema_Internal]))
   \<and> newR1C (Variable [Pack 1 1 schema_Public, Pack 0 1 schema_Secret])
        (Variable [Pack 0 1 schema_Internal]) (Variable [Pack 1 1 schema_Internal])
      = \<lparr>R1C_L = Variable [Pack 0 1 schema_Internal],
         R1C_R = Variable [Pack 1 1 schema_Public, Pack 0 1 schema_Secret],
         R1C_O = Variable [Pack 1 1 schema_Internal]\<rparr>
   \<and> length (LinExp (Variable [Pack 0 1 schema_Internal]))
     \<le> length (LinExp (Variable [Pack 1 1 schema_Public, Pack 0 1 schema_Secret]))
   \<and> newR1C (Variable [Pack 0 1 schema_Internal])
        (Variable [Pack 1 1 schema_Public, Pack 0 1 schema_Secret]) (Variable [Pack 1 1 schema_Internal])
      = \<lparr>R1C_L = Variable [Pack 0 1 schema_Internal],
         R1C_R = Variable [Pack 1 1 schema_Public, Pack 0 1 schema_Secret],
         R1C_O = Variable [Pack 1 1 schema_Internal]\<rparr>"
  using newR1C_swap [of "Variable [Pack 1 1 schema_Public, Pack 0 1 schema_Secret]"
      "Variable [Pack 0 1 schema_Internal]" "Variable [Pack 1 1 schema_Internal]"]
    newR1C_swap [of "Variable [Pack 0 1 schema_Internal]"
      "Variable [Pack 1 1 schema_Public, Pack 0 1 schema_Secret]" "Variable [Pack 1 1 schema_Internal]"]
  by simp

subsection \<open>NewHint\<close>

lemma prepare_wires_eq:
  "prepare_wires system k =
     (system\<lparr>NbInternalVariables := NbInternalVariables system + k\<rparr>,
      map (\<lambda>i. NbInternalVariables system + i) [0..<k],
      map (\<lambda>i. Variable [Pack (NbInternalVariables system + i) CoeffIdOne schema_Internal]) [0..<k])"
proof (induction k arbitrary: system)
  case 0
  then show ?case by simp
next
  case (Suc k)
  have shift: "map f [0..<Suc k] = f 0 # map (\<lambda>i. f (Suc i)) [0..<k]" for f :: "nat \<Rightarrow> 'b"
    by (simp only: upt_conv_Cons [of 0 "Suc k"] map_Suc_upt [symmetric]) simp
  show ?case
    apply (subst prepare_wires.simps)
    apply (simp only: shift)
    apply (simp add: newInternalVariable_def Unpack_def Let_def Suc)
    done
qed

lemma fmlookup_fold_fmupd:
  "fmlookup (fold (\<lambda>k m. fmupd k c m) ks acc) k' = (if k' \<in> set ks then Some c else fmlookup acc k')"
  by (induction ks arbitrary: acc) auto

text \<open>
  C7. \<open>NewHint\<close> returns an error, and no variable, exactly when the number of
  outputs asked for is zero or negative. Otherwise it returns that many variables,
  each a single term with coefficient one over an internal wire; the wires are the
  next unused ones in order (none is below the count of internal wires so far, and
  no two are the same); each input is stored as a copy of its linear expression or
  as a constant; and one hint record is stored under every output wire, while the
  other entries of the hint map stay as they were.
\<close>

theorem NewHint_outputs:
  "(nbOutputs \<le> 0 \<longrightarrow>
      NewHint system f nbOutputs inputs = Inl (Error ''hint function must return at least one output''))
   \<and> (0 < nbOutputs \<longrightarrow>
      (\<exists>system' res ch.
         NewHint system f nbOutputs inputs = Inr (system', res)
         \<and> length res = nat nbOutputs
         \<and> res = map (\<lambda>i. Variable [Pack (NbInternalVariables system + i) CoeffIdOne schema_Internal])
                   [0..<nat nbOutputs]
         \<and> NbInternalVariables system' = NbInternalVariables system + nat nbOutputs
         \<and> ch = \<lparr>ID = f, Inputs = map hint_input inputs,
                  Wires = map (\<lambda>i. NbInternalVariables system + i) [0..<nat nbOutputs]\<rparr>
         \<and> (\<forall>i < length inputs.
               Inputs ch ! i =
                 (case inputs ! i of
                    Var t \<Rightarrow> InLinearExpression (LinExp t)
                  | LinExpr t \<Rightarrow> InLinearExpression t
                  | Constant k \<Rightarrow> InConstant k))
         \<and> distinct (Wires ch)
         \<and> (\<forall>w \<in> set (Wires ch). NbInternalVariables system \<le> w \<and> fmlookup (MHints system') w = Some ch)
         \<and> (\<forall>w. w \<notin> set (Wires ch) \<longrightarrow> fmlookup (MHints system') w = fmlookup (MHints system) w)))"
  by (auto simp: NewHint_def prepare_wires_eq fmlookup_fold_fmupd distinct_map inj_on_def
      hint_input_def Clone_def split: frontend_Variable.splits)

theorem NewHint_outputs_witness:
  "NewHint (newCompiler BN254 \<lparr>Capacity = 0, IgnoreUnconstrainedInputs = False\<rparr>) 7 0 [Constant 5]
     = Inl (Error ''hint function must return at least one output'')
   \<and> (\<exists>system'.
        NewHint (newCompiler BN254 \<lparr>Capacity = 0, IgnoreUnconstrainedInputs = False\<rparr>) 7 3
            [Constant 5, Var (Variable [Pack 0 1 schema_Public])]
          = Inr (system',
                 [Variable [Pack 0 CoeffIdOne schema_Internal],
                  Variable [Pack 1 CoeffIdOne schema_Internal],
                  Variable [Pack 2 CoeffIdOne schema_Internal]])
        \<and> NbInternalVariables system' = 3
        \<and> fmlookup (MHints system') 0 =
            Some \<lparr>ID = 7, Inputs = [InConstant 5, InLinearExpression [Pack 0 1 schema_Public]],
                  Wires = [0, 1, 2]\<rparr>
        \<and> fmlookup (MHints system') 2 = fmlookup (MHints system') 0
        \<and> fmlookup (MHints system') 1 = fmlookup (MHints system') 0
        \<and> fmlookup (MHints system') 3 = None)"
proof -
  let ?sys = "newCompiler BN254 \<lparr>Capacity = 0, IgnoreUnconstrainedInputs = False\<rparr>"
  let ?ins = "[Constant 5, Var (Variable [Pack 0 1 schema_Public])]"
  have u: "[0..<nat 3] = [0, 1, 2]"
    by (simp add: upt_rec numeral_eq_Suc)
  have n: "NbInternalVariables ?sys = 0" "MHints ?sys = fmempty"
    by (simp_all add: newCompiler_def)
  have a: "NewHint ?sys 7 0 [Constant 5]
             = Inl (Error ''hint function must return at least one output'')"
    using NewHint_outputs [of 0 ?sys 7 "[Constant 5]"] by simp
  from NewHint_outputs [of 3 ?sys 7 ?ins]
  obtain system' res ch where
    r: "NewHint ?sys 7 3 ?ins = Inr (system', res)"
      "res = [Variable [Pack 0 CoeffIdOne schema_Internal],
              Variable [Pack 1 CoeffIdOne schema_Internal],
              Variable [Pack 2 CoeffIdOne schema_Internal]]"
      "NbInternalVariables system' = 3"
      "ch = \<lparr>ID = 7, Inputs = [InConstant 5, InLinearExpression [Pack 0 1 schema_Public]],
              Wires = [0, 1, 2]\<rparr>"
      "\<forall>w \<in> set (Wires ch). fmlookup (MHints system') w = Some ch"
      "\<forall>w. w \<notin> set (Wires ch) \<longrightarrow> fmlookup (MHints system') w = fmlookup (MHints ?sys) w"
    unfolding u n by (auto simp: hint_input_def Clone_def)
  from r(4,5,6) have
    "fmlookup (MHints system') 0 = Some ch" "fmlookup (MHints system') 1 = Some ch"
    "fmlookup (MHints system') 2 = Some ch" "fmlookup (MHints system') 3 = None"
    by (simp_all add: n)
  with a r show ?thesis by simp
qed

subsection \<open>reduce\<close>

lemma reduce_loop_done: "length l \<le> i \<Longrightarrow> reduce_loop q tbl l i = Inr (tbl, l)"
  by (subst reduce_loop.simps) simp

lemma reduce_loop_merge_adjacent:
  "reduce_loop q tbl (pre @ p # rest) (length pre + 1) =
     (case merge_adjacent q tbl (p # rest) of
        Inl e \<Rightarrow> Inl e
      | Inr (tbl', r) \<Rightarrow> Inr (tbl', pre @ r))"
proof (induction q tbl "p # rest" arbitrary: pre p rest rule: merge_adjacent.induct)
  case (1 q tbl p c rest)
  let ?l = "pre @ p # c # rest"
  have len: "length pre + 1 < length ?l" by simp
  have at: "?l ! (length pre + 1 - 1) = p" "?l ! (length pre + 1) = c"
    by (simp_all add: nth_append)
  show ?case
  proof (cases "VariableVisibility p = VariableVisibility c \<and> WireID p = WireID c")
    case True
    have cut: "take (length pre + 1) (?l[length pre := x]) @ drop (length pre + 1 + 1) (?l[length pre := x])
                 = pre @ x # rest" for x
      by (simp add: list_update_append)
    show ?thesis
      apply (subst reduce_loop.simps)
      apply (simp only: len at if_True)
      using True 1(1) [OF True _ _ _ refl, where pre = pre]
      apply (auto simp add: Unpack_def cut list_update_append split: sum.splits prod.splits)
      done
  next
    case False
    have ih: "reduce_loop q tbl ((pre @ [p]) @ c # rest) (length (pre @ [p]) + 1) =
       (case merge_adjacent q tbl (c # rest) of
          Inl e \<Rightarrow> Inl e
        | Inr (tbl', r) \<Rightarrow> Inr (tbl', (pre @ [p]) @ r))"
      using 1(2) [OF False, where pre = "pre @ [p]"] by simp
    show ?thesis
      apply (subst reduce_loop.simps)
      apply (simp only: len at if_True)
      using False ih
      apply (auto simp add: Unpack_def split: sum.splits prod.splits)
      done
  qed
qed (simp_all add: reduce_loop_done)


lemma reduce_loop_eq_merge: "reduce_loop q tbl l 1 = merge_adjacent q tbl l"
proof (cases l)
  case Nil
  then show ?thesis by (simp add: reduce_loop_done)
next
  case (Cons p rest)
  then show ?thesis
    using reduce_loop_merge_adjacent [of q tbl "[]" p rest]
    by (auto split: sum.splits)
qed

lemma visibility_rank_eq [simp]: "visibility_rank a = visibility_rank b \<longleftrightarrow> a = b"
  by (cases a; cases b) simp_all

lemma term_key_eq:
  "term_key a = term_key b \<longleftrightarrow> VariableVisibility a = VariableVisibility b \<and> WireID a = WireID b"
  by (simp add: term_key_def)

lemma Less_key: "Less a b \<longleftrightarrow> term_key a < term_key b"
  by (cases "VariableVisibility a = VariableVisibility b")
    (auto simp: Less_def term_key_def less_prod_def order.order_iff_strict)

lemma IsSorted_key: "IsSorted l \<longleftrightarrow> sorted (map term_key l)"
  by (induction l rule: IsSorted.induct) (auto simp: Less_key not_less intro: order.trans)

lemma strict_IsSorted: "sorted_wrt Less l \<longleftrightarrow> sorted_wrt (<) (map term_key l)"
proof -
  have "Less = (\<lambda>x y. term_key x < term_key y)"
    by (intro ext) (simp add: Less_key)
  then show ?thesis by (simp add: sorted_wrt_map)
qed

lemma mset_insert_term: "mset (insert_term t l) = add_mset t (mset l)"
  by (induction l) simp_all

lemma sorted_insert_term:
  "sorted (map term_key l) \<Longrightarrow> sorted (map term_key (insert_term t l))"
proof (induction l)
  case Nil
  then show ?case by simp
next
  case (Cons a l)
  have "set (insert_term t l) = insert t (set l)"
    using mset_insert_term [of t l] by (metis set_mset_add_mset_insert set_mset_mset)
  with Cons show ?case
    by (auto simp: Less_key)
qed

lemma insertionSort_contract: "sort_contract insertionSort"
proof -
  have "sorted (map term_key (foldr insert_term l [])) \<and> mset (foldr insert_term l []) = mset l" for l
    by (induction l) (simp_all add: sorted_insert_term mset_insert_term)
  then show ?thesis
    by (simp add: sort_contract_def insertionSort_def IsSorted_key)
qed

lemma merge_adjacent_strict:
  "sorted (map term_key l) \<Longrightarrow> merge_adjacent q tbl l = Inr (tbl', r)
   \<Longrightarrow> sorted_wrt (<) (map term_key r) \<and> set (map term_key r) = set (map term_key l)"
proof (induction q tbl l arbitrary: tbl' r rule: merge_adjacent.induct)
  case (1 q tbl p c rest)
  show ?case
  proof (cases "VariableVisibility p = VariableVisibility c \<and> WireID p = WireID c")
    case True
    then have k: "term_key p = term_key c" by (simp add: term_key_eq)
    from "1.prems"(2) True obtain a b s cid tbl2 where
      st: "index (Coeffs tbl) (CoeffID p) = Inr a" "index (Coeffs tbl) (CoeffID c) = Inr b"
        "big_Mod (a + b) q = Inr s" "CoeffTable_CoeffID tbl s = (cid, tbl2)"
        "merge_adjacent q tbl2 (SetCoeffID cid p # rest) = Inr (tbl', r)"
      by (auto split: sum.splits prod.splits)
    have k': "term_key (SetCoeffID cid p) = term_key p"
      by (simp add: term_key_def SetCoeffID_def)
    have "sorted (map term_key (SetCoeffID cid p # rest))"
      using "1.prems"(1) k k' by auto
    from "1.IH"(1) [OF True st(1) st(2) st(3) st(4) [symmetric] refl this st(5)]
    show ?thesis using k k' by auto
  next
    case False
    then have k: "term_key p \<noteq> term_key c" by (simp add: term_key_eq)
    from "1.prems"(2) False obtain r' where
      st: "merge_adjacent q tbl (c # rest) = Inr (tbl', r')" "r = p # r'"
      by (auto split: sum.splits prod.splits)
    have "sorted (map term_key (c # rest))" using "1.prems"(1) by simp
    from "1.IH"(2) [OF False this st(1)]
    have ih: "sorted_wrt (<) (map term_key r')" "set (map term_key r') = set (map term_key (c # rest))"
      by simp_all
    have "\<forall>x \<in> set (map term_key (c # rest)). term_key p < x"
      using "1.prems"(1) k by fastforce
    with ih st(2) show ?thesis by auto
  qed
qed simp_all

lemma merge_adjacent_id:
  "sorted_wrt (<) (map term_key l) \<Longrightarrow> merge_adjacent q tbl l = Inr (tbl, l)"
proof (induction q tbl l rule: merge_adjacent.induct)
  case (1 q tbl p c rest)
  then have "term_key p \<noteq> term_key c" by auto
  then have "\<not> (VariableVisibility p = VariableVisibility c \<and> WireID p = WireID c)"
    by (simp add: term_key_eq)
  with 1 show ?case by auto
qed simp_all


lemma find_coeff_Some: "find_coeff cs v = Some i \<Longrightarrow> i < length cs \<and> cs ! i = v"
  by (induction cs arbitrary: i) (auto split: if_splits)

lemma CoeffTable_CoeffID_props:
  assumes "CoeffTable_CoeffID tbl v = (cid, tbl')"
  shows "extends tbl tbl'" and "cid < length (Coeffs tbl')" and "Coeffs tbl' ! cid = v"
  using assms
  by (auto simp: CoeffTable_CoeffID_def extends_def nth_append dest: find_coeff_Some
      split: option.splits)

lemma extends_trans: "extends a b \<Longrightarrow> extends b c \<Longrightarrow> extends a c"
  by (auto simp: extends_def)

lemma extends_value:
  "extends tbl tbl' \<Longrightarrow> CoeffID t < length (Coeffs tbl) \<Longrightarrow> term_value tbl' t = term_value tbl t"
  by (auto simp: extends_def term_value_def nth_append)

lemma merged_cong:
  assumes "\<forall>t \<in> set ts. term_value tbl2 t = term_value tbl t" and "merged q tbl2 tbl' ts rs"
  shows "merged q tbl tbl' ts rs"
proof -
  from assms(1) have eq: "map (term_value tbl) ts = map (term_value tbl2) ts" by simp
  show ?thesis
    unfolding merged_def eq by (rule assms(2) [unfolded merged_def])
qed

lemma wire_terms_key:
  "wire_terms v w l = filter (\<lambda>t. term_key t = (visibility_rank v, w)) l"
  by (simp add: wire_terms_def term_key_def)

lemma merge_adjacent_values:
  assumes "sorted (map term_key l)" and "\<forall>t \<in> set l. CoeffID t < length (Coeffs tbl)" and "q \<noteq> 0"
  shows "\<exists>tbl' r. merge_adjacent q tbl l = Inr (tbl', r) \<and> extends tbl tbl'
           \<and> (\<forall>t \<in> set r. CoeffID t < length (Coeffs tbl'))
           \<and> (\<forall>v w. merged q tbl tbl' (wire_terms v w l) (wire_terms v w r))"
  using assms
proof (induction q tbl l rule: merge_adjacent.induct)
  case (1 q tbl p c rest)
  show ?case
  proof (cases "VariableVisibility p = VariableVisibility c \<and> WireID p = WireID c")
    case True
    define a where "a = term_value tbl p"
    define b where "b = term_value tbl c"
    define s where "s = (a + b) mod \<bar>q\<bar>"
    obtain cid tbl2 where id: "CoeffTable_CoeffID tbl s = (cid, tbl2)"
      by (cases "CoeffTable_CoeffID tbl s") auto
    note tb = CoeffTable_CoeffID_props [OF id]
    define p' where "p' = SetCoeffID cid p"
    have ia: "index (Coeffs tbl) (CoeffID p) = Inr a" and ib: "index (Coeffs tbl) (CoeffID c) = Inr b"
      using "1.prems"(2) by (simp_all add: index_def a_def b_def term_value_def)
    have im: "big_Mod (a + b) q = Inr s"
      using "1.prems"(3) by (simp add: big_Mod_def s_def)
    have kp: "term_key p' = term_key p" "VariableVisibility p' = VariableVisibility p"
      "WireID p' = WireID p" "CoeffID p' = cid"
      by (simp_all add: p'_def term_key_def SetCoeffID_def)
    have srt2: "sorted (map term_key (p' # rest))"
      using "1.prems"(1) kp by auto
    have old: "CoeffID t < length (Coeffs tbl2)" if "CoeffID t < length (Coeffs tbl)" for t
      using tb(1) that by (auto simp: extends_def)
    have valid2: "\<forall>t \<in> set (p' # rest). CoeffID t < length (Coeffs tbl2)"
      using "1.prems"(2) tb(2) kp old by auto
    note IH = "1.IH"(1) [OF True ia ib im id [symmetric] refl, folded p'_def]
    from IH [OF srt2 valid2 "1.prems"(3)]
    obtain tbl' r where ih:
      "merge_adjacent q tbl2 (p' # rest) = Inr (tbl', r)" "extends tbl2 tbl'"
      "\<forall>t \<in> set r. CoeffID t < length (Coeffs tbl')"
      "\<forall>v w. merged q tbl2 tbl' (wire_terms v w (p' # rest)) (wire_terms v w r)"
      by (elim exE conjE)
    have run: "merge_adjacent q tbl (p # c # rest) = Inr (tbl', r)"
      using True ia ib im id ih(1) by (simp add: p'_def)
    have same: "term_value tbl2 t = term_value tbl t" if "t \<in> set rest" for t
      using extends_value [OF tb(1)] "1.prems"(2) that by simp
    have vp': "term_value tbl' p' = s"
      using extends_value [OF ih(2), of p'] kp(4) tb(2,3) by (simp add: term_value_def)
    have vp2: "term_value tbl2 p' = s"
      using kp(4) tb(3) by (simp add: term_value_def)
    have "merged q tbl tbl' (wire_terms v w (p # c # rest)) (wire_terms v w r)" for v w
    proof (cases "VariableVisibility p = v \<and> WireID p = w")
      case here: True
      then have l: "wire_terms v w (p # c # rest) = p # c # wire_terms v w rest"
        and l2: "wire_terms v w (p' # rest) = p' # wire_terms v w rest"
        using True kp by (auto simp: wire_terms_def)
      have vr: "map (term_value tbl2) (wire_terms v w rest) = map (term_value tbl) (wire_terms v w rest)"
        using same by (simp add: wire_terms_def)
      have m: "merged q tbl2 tbl' (p' # wire_terms v w rest) (wire_terms v w r)"
        using ih(4) [rule_format, of v w] l2 by simp
      show ?thesis
      proof (cases "wire_terms v w rest")
        case Nil
        with m have "wire_terms v w r = [p']" by (simp add: merged_def)
        then show ?thesis
          using l Nil vp' by (simp add: merged_def s_def a_def b_def)
      next
        case (Cons u us)
        with m obtain t' where t': "wire_terms v w r = [t']"
          "term_value tbl' t' = (s + sum_list (map (term_value tbl2) (wire_terms v w rest))) mod \<bar>q\<bar>"
          by (auto simp: merged_def vp2)
        have "(s + sum_list (map (term_value tbl) (wire_terms v w rest))) mod \<bar>q\<bar>
                = (a + b + sum_list (map (term_value tbl) (wire_terms v w rest))) mod \<bar>q\<bar>"
          unfolding s_def by (rule mod_add_left_eq)
        with t' vr show ?thesis
          using l by (simp add: merged_def a_def b_def add.assoc)
      qed
    next
      case other: False
      then have l: "wire_terms v w (p # c # rest) = wire_terms v w rest"
        and l2: "wire_terms v w (p' # rest) = wire_terms v w rest"
        using True kp by (auto simp: wire_terms_def)
      have "merged q tbl2 tbl' (wire_terms v w rest) (wire_terms v w r)"
        using ih(4) [rule_format, of v w] l2 by simp
      then have "merged q tbl tbl' (wire_terms v w rest) (wire_terms v w r)"
        by (rule merged_cong [rotated]) (simp add: same wire_terms_def)
      then show ?thesis by (simp add: l)
    qed
    with run ih(3) extends_trans [OF tb(1) ih(2)] show ?thesis by blast
  next
    case False
    then have k: "term_key p \<noteq> term_key c" by (simp add: term_key_eq)
    have "sorted (map term_key (c # rest))" using "1.prems"(1) by simp
    moreover have "\<forall>t \<in> set (c # rest). CoeffID t < length (Coeffs tbl)" using "1.prems"(2) by simp
    ultimately obtain tbl' r where ih:
      "merge_adjacent q tbl (c # rest) = Inr (tbl', r)" "extends tbl tbl'"
      "\<forall>t \<in> set r. CoeffID t < length (Coeffs tbl')"
      "\<forall>v w. merged q tbl tbl' (wire_terms v w (c # rest)) (wire_terms v w r)"
      using "1.IH"(2) [OF False _ _ "1.prems"(3)] by blast
    have run: "merge_adjacent q tbl (p # c # rest) = Inr (tbl', p # r)"
      using False ih(1) by auto
    have vp: "CoeffID p < length (Coeffs tbl')"
      using ih(2) "1.prems"(2) by (auto simp: extends_def)
    have above: "\<forall>t \<in> set (c # rest). term_key p < term_key t"
      using "1.prems"(1) k by fastforce
    have "merged q tbl tbl' (wire_terms v w (p # c # rest)) (wire_terms v w (p # r))" for v w
    proof (cases "VariableVisibility p = v \<and> WireID p = w")
      case True
      then have kp: "term_key p = (visibility_rank v, w)" by (auto simp: term_key_def)
      have none: "wire_terms v w (c # rest) = []"
        unfolding wire_terms_key using above kp by (auto simp: filter_empty_conv)
      have "wire_terms v w r = []"
        using ih(4) [rule_format, of v w] none by (simp add: merged_def)
      with none True show ?thesis
        by (simp add: merged_def wire_terms_def)
    next
      case False
      then have "wire_terms v w (p # c # rest) = wire_terms v w (c # rest)"
        "wire_terms v w (p # r) = wire_terms v w r"
        by (auto simp: wire_terms_def)
      with ih(4) show ?thesis by simp
    qed
    with run ih(2,3) vp show ?thesis by auto
  qed
qed (auto simp: extends_def merged_def wire_terms_def)

lemma ensure_sorted_props:
  assumes "sort_contract srt"
  shows "sorted (map term_key (ensure_sorted srt l))" and "mset (ensure_sorted srt l) = mset l"
  using assms by (auto simp: ensure_sorted_def sort_contract_def IsSorted_key)

lemma reduce_eq:
  "reduce srt q system e =
     (case merge_adjacent q (st system) (ensure_sorted srt (LinExp e)) of
        Inl x \<Rightarrow> Inl x
      | Inr (tbl, le) \<Rightarrow> Inr (system\<lparr>st := tbl\<rparr>, Variable le))"
  by (simp only: reduce_def reduce_loop_eq_merge)

text \<open>
  C5. \<open>reduce\<close> is idempotent: whenever it returns, reducing its result again
  (with the coefficient table as the first call left it) returns the same terms in
  the same order and the same table, and the terms are strictly increasing in the
  order of terms (by visibility class, then by wire ID), so no two of them share a
  wire and visibility. It returns whenever the modulus is not zero and every
  coefficient ID of the expression is in the table. \<open>srt\<close> is any function
  that keeps the promise of \<open>sort.Sort\<close>.
\<close>

theorem reduce_idempotent:
  assumes "sort_contract srt"
  shows "(\<forall>system' e'. reduce srt q system e = Inr (system', e') \<longrightarrow>
            reduce srt q system' e' = Inr (system', e') \<and> sorted_wrt Less (LinExp e'))
         \<and> ((\<forall>t \<in> set (LinExp e). CoeffID t < length (Coeffs (st system))) \<and> q \<noteq> 0 \<longrightarrow>
            (\<exists>system' e'. reduce srt q system e = Inr (system', e')))"
proof (intro conjI allI impI)
  fix system' e'
  assume r: "reduce srt q system e = Inr (system', e')"
  then obtain tbl where m: "merge_adjacent q (st system) (ensure_sorted srt (LinExp e)) = Inr (tbl, LinExp e')"
    and s': "system' = system\<lparr>st := tbl\<rparr>"
    by (auto simp: reduce_eq split: sum.splits)
  from merge_adjacent_strict [OF ensure_sorted_props(1) [OF assms] m]
  have strict: "sorted_wrt (<) (map term_key (LinExp e'))" by simp
  then show "sorted_wrt Less (LinExp e')" by (simp add: strict_IsSorted)
  from strict have "sorted (map term_key (LinExp e'))"
    by (rule strict_sorted_imp_sorted)
  then have "ensure_sorted srt (LinExp e') = LinExp e'"
    by (simp add: ensure_sorted_def IsSorted_key)
  with merge_adjacent_id [OF strict, of q tbl] s'
  show "reduce srt q system' e' = Inr (system', e')"
    by (simp add: reduce_eq)
next
  assume v: "(\<forall>t \<in> set (LinExp e). CoeffID t < length (Coeffs (st system))) \<and> q \<noteq> 0"
  let ?l = "ensure_sorted srt (LinExp e)"
  have "set ?l = set (LinExp e)"
    using ensure_sorted_props(2) [OF assms, of "LinExp e"] by (rule mset_eq_setD)
  with v have "\<forall>t \<in> set ?l. CoeffID t < length (Coeffs (st system))" by simp
  from merge_adjacent_values [OF ensure_sorted_props(1) [OF assms] this] v
  obtain tbl' r where "merge_adjacent q (st system) ?l = Inr (tbl', r)" by blast
  then show "\<exists>system' e'. reduce srt q system e = Inr (system', e')"
    by (simp add: reduce_eq)
qed

lemma mset_two: "mset l = {#a, b#} \<Longrightarrow> l = [a, b] \<or> l = [b, a]"
proof -
  assume m: "mset l = {#a, b#}"
  then have "length l = 2" by (metis size_mset size_add_mset size_empty numeral_2_eq_2)
  then obtain x y where l: "l = [x, y]"
    by (cases l; cases "tl l") auto
  with m show ?thesis by (auto simp: add_eq_conv_ex)
qed

text \<open>
  C4. If exactly two terms of an expression reference the wire \<open>w\<close> of
  visibility \<open>v\<close>, with coefficients \<open>a\<close> and \<open>b\<close>, then \<open>reduce\<close>
  returns an expression with exactly one term for that wire, whose coefficient in
  the table is \<open>(a + b) mod q\<close>; the term is there also when this is 0. The
  modulus is positive and the coefficient IDs of the expression are in the table.
\<close>

theorem reduce_merges_two_terms:
  assumes "sort_contract srt" and "0 < q"
    and "\<forall>t \<in> set (LinExp e). CoeffID t < length (Coeffs (st system))"
    and "mset (wire_terms v w (LinExp e)) = {#t1, t2#}"
  shows "\<exists>system' e' t'. reduce srt q system e = Inr (system', e')
           \<and> wire_terms v w (LinExp e') = [t']
           \<and> VariableVisibility t' = v \<and> WireID t' = w
           \<and> CoeffID t' < length (Coeffs (st system'))
           \<and> term_value (st system') t'
               = (term_value (st system) t1 + term_value (st system) t2) mod q"
proof -
  let ?l = "ensure_sorted srt (LinExp e)"
  note es = ensure_sorted_props [OF assms(1), of "LinExp e"]
  have "set ?l = set (LinExp e)" using es(2) by (rule mset_eq_setD)
  with assms(3) have valid: "\<forall>t \<in> set ?l. CoeffID t < length (Coeffs (st system))" by simp
  from assms(2) have q0: "q \<noteq> 0" by simp
  from merge_adjacent_values [OF es(1) valid q0]
  obtain tbl' r where m: "merge_adjacent q (st system) ?l = Inr (tbl', r)"
    and valid': "\<forall>t \<in> set r. CoeffID t < length (Coeffs tbl')"
    and mg: "\<forall>v w. merged q (st system) tbl' (wire_terms v w ?l) (wire_terms v w r)"
    by blast
  have "mset (wire_terms v w ?l) = mset (wire_terms v w (LinExp e))"
    using es(2) by (simp add: wire_terms_def)
  with assms(4) have "wire_terms v w ?l = [t1, t2] \<or> wire_terms v w ?l = [t2, t1]"
    by (simp add: mset_two)
  with mg [rule_format, of v w] obtain t' where t': "wire_terms v w r = [t']"
    "term_value tbl' t' = (term_value (st system) t1 + term_value (st system) t2) mod \<bar>q\<bar>"
    by (auto simp: merged_def add.commute)
  from t'(1) have "t' \<in> set (wire_terms v w r)" by simp
  then have in_r: "t' \<in> set r" "VariableVisibility t' = v" "WireID t' = w"
    by (simp_all add: wire_terms_def)
  have "reduce srt q system e = Inr (system\<lparr>st := tbl'\<rparr>, Variable r)"
    using m by (simp add: reduce_eq)
  with t' in_r valid' assms(2) show ?thesis by auto
qed

lemma reduce_example:
  "reduce insertionSort 2 example_system
          (Variable [Pack 0 1 schema_Secret, Pack 2 1 schema_Public, Pack 0 1 schema_Secret])
        = Inr (example_system, Variable [Pack 2 1 schema_Public, Pack 0 0 schema_Secret])"
  by (simp add: reduce_eq example_system_def newCompiler_def ensure_sorted_def insertionSort_def Less_def
      index_def big_Mod_def CoeffTable_CoeffID_def NewCoeffTable_def SetCoeffID_def)

theorem reduce_idempotent_witness:
  "sort_contract insertionSort
   \<and> reduce insertionSort 2 example_system
        (Variable [Pack 0 1 schema_Secret, Pack 2 1 schema_Public, Pack 0 1 schema_Secret])
      = Inr (example_system, Variable [Pack 2 1 schema_Public, Pack 0 0 schema_Secret])
   \<and> reduce insertionSort 2 example_system
        (Variable [Pack 2 1 schema_Public, Pack 0 0 schema_Secret])
      = Inr (example_system, Variable [Pack 2 1 schema_Public, Pack 0 0 schema_Secret])
   \<and> sorted_wrt Less [Pack 2 1 schema_Public, Pack 0 0 schema_Secret]
   \<and> list_all (\<lambda>t. CoeffID t < length (Coeffs (st example_system)))
        [Pack 0 1 schema_Secret, Pack 2 1 schema_Public, Pack 0 1 schema_Secret]"
proof -
  have v: "list_all (\<lambda>t. CoeffID t < length (Coeffs (st example_system)))
        [Pack 0 1 schema_Secret, Pack 2 1 schema_Public, Pack 0 1 schema_Secret]"
    by (simp add: example_system_def newCompiler_def NewCoeffTable_def)
  from reduce_idempotent [OF insertionSort_contract, of 2 example_system
      "Variable [Pack 0 1 schema_Secret, Pack 2 1 schema_Public, Pack 0 1 schema_Secret]"]
    reduce_example insertionSort_contract v
  show ?thesis by simp
qed

theorem reduce_merges_two_terms_witness:
  "sort_contract insertionSort \<and> (0::int) < 2
   \<and> list_all (\<lambda>t. CoeffID t < length (Coeffs (st example_system)))
        [Pack 0 1 schema_Secret, Pack 2 1 schema_Public, Pack 0 1 schema_Secret]
   \<and> mset (wire_terms schema_Secret 0
             [Pack 0 1 schema_Secret, Pack 2 1 schema_Public, Pack 0 1 schema_Secret])
      = {#Pack 0 1 schema_Secret, Pack 0 1 schema_Secret#}
   \<and> term_value (st example_system) (Pack 0 1 schema_Secret) = 1
   \<and> (\<exists>t'. wire_terms schema_Secret 0 [Pack 2 1 schema_Public, Pack 0 0 schema_Secret] = [t']
          \<and> term_value (st example_system) t' = 0)"
proof -
  let ?e = "Variable [Pack 0 1 schema_Secret, Pack 2 1 schema_Public, Pack 0 1 schema_Secret]"
  have q: "(0::int) < 2" by simp
  have v: "\<forall>t \<in> set (LinExp ?e). CoeffID t < length (Coeffs (st example_system))"
    by (simp add: example_system_def newCompiler_def NewCoeffTable_def)
  have m: "mset (wire_terms schema_Secret 0 (LinExp ?e))
             = {#Pack 0 1 schema_Secret, Pack 0 1 schema_Secret#}"
    by (simp add: wire_terms_def)
  have one: "term_value (st example_system) (Pack 0 1 schema_Secret) = 1"
    by (simp add: term_value_def example_system_def newCompiler_def NewCoeffTable_def)
  from reduce_merges_two_terms [OF insertionSort_contract q v m]
  obtain system' e' t' where
    "reduce insertionSort 2 example_system ?e = Inr (system', e')"
    "wire_terms schema_Secret 0 (LinExp e') = [t']"
    "term_value (st system') t' = (1 + 1) mod 2"
    unfolding one by blast
  with reduce_example have "\<exists>t'. wire_terms schema_Secret 0 [Pack 2 1 schema_Public, Pack 0 0 schema_Secret] = [t']
          \<and> term_value (st example_system) t' = 0"
    by auto
  with insertionSort_contract q v m one show ?thesis by simp
qed

subsection \<open>The boolean-fact table\<close>

lemma ConstantValue_None:
  "ConstantValue system v = Inr None \<Longrightarrow> \<exists>x. v = Var x"
  by (cases v) (auto simp: ConstantValue_def)

lemma ConstantValue_mtBooleans [simp]:
  "ConstantValue (system\<lparr>mtBooleans := m\<rparr>) v = ConstantValue system v"
  by (cases v) (simp_all add: ConstantValue_def Unpack_def)

text \<open>
  C8, amended. For every non-constant variable \<open>v\<close>: \<open>MarkBoolean\<close> adds
  the sorted term list of \<open>v\<close> to the bucket of its hash and leaves the rest of
  the table as it is, and \<open>IsBoolean\<close> of \<open>v\<close> (as given, and as
  \<open>MarkBoolean\<close> left it sorted in place) then returns true. For every
  non-constant expression, \<open>IsBoolean\<close> returns true exactly when the bucket of
  the hash of its sorted term list holds a list equal to that sorted term list:
  sharing the bucket is not enough. \<open>hashCode\<close> is any hash, \<open>srt\<close> any
  function that keeps the promise of \<open>sort.Sort\<close>.
\<close>

theorem MarkBoolean_IsBoolean:
  assumes "sort_contract srt" and "ConstantValue system v = Inr None"
  shows "\<exists>system' x l.
           v = Var x \<and> l = ensure_sorted srt (LinExp x)
           \<and> MarkBoolean srt hashCode system v = Inr (system', Var (Variable l))
           \<and> mtBooleans system' =
               (mtBooleans system)
                 (hashCode l \<mapsto> (case mtBooleans system (hashCode l) of None \<Rightarrow> [] | Some ls \<Rightarrow> ls) @ [l])
           \<and> IsBoolean srt hashCode system' v = Inr (True, Var (Variable l))
           \<and> IsBoolean srt hashCode system' (Var (Variable l)) = Inr (True, Var (Variable l))
           \<and> IsBoolean srt hashCode system v =
               Inr (\<exists>ls. mtBooleans system (hashCode l) = Some ls \<and> l \<in> set ls, Var (Variable l))"
proof -
  from ConstantValue_None [OF assms(2)] obtain x where v: "v = Var x" by blast
  define l where "l = ensure_sorted srt (LinExp x)"
  have "IsSorted l"
    using assms(1) by (auto simp: l_def ensure_sorted_def sort_contract_def)
  then have again: "ensure_sorted srt l = l"
    by (simp add: ensure_sorted_def)
  have c2: "ConstantValue system (Var (Variable l)) = Inr None"
  proof -
    have "mset l = mset (LinExp x)"
      using assms(1) by (auto simp: l_def ensure_sorted_def sort_contract_def)
    then have len: "length l = length (LinExp x)" and st: "set l = set (LinExp x)"
      by (metis size_mset, metis set_mset_mset)
    show ?thesis
    proof (cases "length (LinExp x) = 1")
      case True
      then obtain t where t: "LinExp x = [t]" by (cases "LinExp x") auto
      with len st have "l = [t]" by (cases l) auto
      with t assms(2) v show ?thesis by (simp add: ConstantValue_def)
    next
      case False
      with assms(2) v len show ?thesis
        by (auto simp: ConstantValue_def split: if_splits)
    qed
  qed
  show ?thesis
    using assms(2) c2 again
    by (auto simp: v l_def [symmetric] MarkBoolean_def IsBoolean_def Let_def list_ex_iff
        split: option.splits)
qed

text \<open>
  C8 as stated fails for constants: \<open>IsBoolean\<close> of the constant 1 (the wire
  \<open>one\<close>) is true on the compiler as created, whose table of boolean facts is
  empty.
\<close>

theorem IsBoolean_constant_counterexample:
  "IsBoolean insertionSort (\<lambda>l. 0) example_system (Var one) = Inr (True, Var one)
   \<and> (\<forall>key. mtBooleans example_system key = None)"
  by (simp add: IsBoolean_def ConstantValue_def one_def Unpack_def index_def example_system_def
      newCompiler_def NewCoeffTable_def CoeffIdOne_def IsUint64_def)

theorem MarkBoolean_IsBoolean_witness:
  "sort_contract insertionSort
   \<and> ConstantValue example_system (Var (Variable [Pack 1 1 schema_Secret, Pack 1 1 schema_Public])) = Inr None
   \<and> (\<exists>system'.
         MarkBoolean insertionSort (\<lambda>l. 0) example_system
             (Var (Variable [Pack 1 1 schema_Secret, Pack 1 1 schema_Public]))
           = Inr (system', Var (Variable [Pack 1 1 schema_Public, Pack 1 1 schema_Secret]))
         \<and> IsBoolean insertionSort (\<lambda>l. 0) system'
             (Var (Variable [Pack 1 1 schema_Secret, Pack 1 1 schema_Public]))
           = Inr (True, Var (Variable [Pack 1 1 schema_Public, Pack 1 1 schema_Secret]))
         \<and> IsBoolean insertionSort (\<lambda>l. 0) system' (Var (Variable [Pack 2 1 schema_Secret]))
           = Inr (False, Var (Variable [Pack 2 1 schema_Secret])))"
proof -
  let ?h = "\<lambda>l :: Term list. 0 :: 64 word"
  let ?v = "Var (Variable [Pack 1 1 schema_Secret, Pack 1 1 schema_Public])"
  let ?l = "[Pack 1 1 schema_Public, Pack 1 1 schema_Secret]"
  let ?e = "Var (Variable [Pack 2 1 schema_Secret])"
  have c: "ConstantValue example_system ?v = Inr None"
    by (simp add: ConstantValue_def)
  have s: "ensure_sorted insertionSort [Pack 1 1 schema_Secret, Pack 1 1 schema_Public] = ?l"
    by (simp add: ensure_sorted_def insertionSort_def Less_def)
  have e0: "mtBooleans example_system = Map.empty"
    by (simp add: example_system_def newCompiler_def)
  from MarkBoolean_IsBoolean [OF insertionSort_contract c, of ?h]
  obtain system' x l where m:
    "?v = Var x" "l = ensure_sorted insertionSort (LinExp x)"
    "MarkBoolean insertionSort ?h example_system ?v = Inr (system', Var (Variable l))"
    "mtBooleans system' =
       (mtBooleans example_system)
         (?h l \<mapsto> (case mtBooleans example_system (?h l) of None \<Rightarrow> [] | Some ls \<Rightarrow> ls) @ [l])"
    "IsBoolean insertionSort ?h system' ?v = Inr (True, Var (Variable l))"
    by blast
  from m(1,2) s have l: "l = ?l" by auto
  have tb: "mtBooleans system' 0 = Some [?l]"
    using m(4) by (simp add: l e0)
  have c': "ConstantValue system' ?e = Inr None"
    by (simp add: ConstantValue_def Unpack_def)
  from MarkBoolean_IsBoolean [OF insertionSort_contract c', of ?h] tb
  have "IsBoolean insertionSort ?h system' ?e = Inr (False, ?e)"
    by (auto simp: ensure_sorted_def)
  with insertionSort_contract c m(3,5) l show ?thesis by auto
qed

subsection \<open>Unconstrained inputs\<close>

text \<open>
  C2 fails on the circuit with no constraint and no input: \<open>checkVariables\<close>
  returns \<open>nil\<close> only from inside its loop over the constraints, so with no
  constraint it builds the error, with an empty message, although nothing is
  unconstrained, and \<open>Compile\<close> returns that error.
\<close>

theorem Compile_empty_circuit:
  "Compile fuel [] example_system = Inl (Error [])
   \<and> \<not> some_unconstrained example_system
   \<and> \<not> IgnoreUnconstrainedInputs (config example_system)"
  by (simp add: Compile_def checkVariables_def example_system_def newCompiler_def len_def
      write_secret_def write_public_def write_hints_def some_unconstrained_def)

subsection \<open>Compile: the offsets\<close>

lemma shiftVID_cong:
  "NbPublicVariables r = NbPublicVariables r' \<Longrightarrow> NbSecretVariables r = NbSecretVariables r'
   \<Longrightarrow> shiftVID r = shiftVID r'"
  by (intro ext) (simp add: shiftVID_def split: Visibility.splits)

lemma offset_cong:
  assumes "NbPublicVariables r = NbPublicVariables r'" "NbSecretVariables r = NbSecretVariables r'"
  shows "offsetIDs r = offsetIDs r'" "offset_constraint r = offset_constraint r'"
    "offset_input r = offset_input r'" "offset_log r = offset_log r'"
    "offset_hint_record r = offset_hint_record r'"
proof -
  note s = shiftVID_cong [OF assms]
  show a: "offsetIDs r = offsetIDs r'"
    by (intro ext) (simp add: offsetIDs_def s)
  show "offset_constraint r = offset_constraint r'"
    by (intro ext) (simp add: offset_constraint_def a)
  show b: "offset_input r = offset_input r'"
    by (intro ext) (simp add: offset_input_def a split: HintInput.splits)
  show "offset_log r = offset_log r'"
    by (intro ext) (simp add: offset_log_def a)
  show "offset_hint_record r = offset_hint_record r'"
    by (intro ext) (simp add: offset_hint_record_def b s)
qed

lemma offset_hint_eq:
  "offset_hint res shiftedMap hint =
     (if Wires hint \<noteq> []
          \<and> fmlookup shiftedMap (shiftVID res (hd (Wires hint)) schema_Internal) \<noteq> None
      then shiftedMap
      else fold (\<lambda>vID m. fmupd vID (offset_hint_record res hint) m)
             (map (\<lambda>vID. shiftVID res vID schema_Internal) (Wires hint)) shiftedMap)"
  by (cases "Wires hint") (simp_all add: offset_hint_def offset_hint_record_def Let_def)

lemma shiftVID_Internal: "shiftVID res w schema_Internal = w + (NbPublicVariables res + NbSecretVariables res)"
  by (simp add: shiftVID_def)

lemma hints_wfD:
  assumes "hints_wf m" and "fmlookup m k = Some h"
  shows "k \<in> set (Wires h)" and "\<forall>w \<in> set (Wires h). fmlookup m w = Some h"
  using assms unfolding hints_wf_def by blast+

lemma HINTLOOP_step:
  assumes wf: "hints_wf m" and k: "fmlookup m k = Some h"
    and inv: "fmlookup acc = shifted_so_far res m S"
  shows "fmlookup (offset_hint res acc h) = shifted_so_far res m (insert h S)"
proof -
  let ?n = "NbPublicVariables res + NbSecretVariables res"
  note kin = hints_wfD(1) [OF wf k] and all = hints_wfD(2) [OF wf k]
  from kin have ne: "Wires h \<noteq> []" by auto
  then have hd: "fmlookup m (hd (Wires h)) = Some h" using all by simp
  have inw: "w \<in> set (Wires h')" if "fmlookup m w = Some h'" for w h'
    using hints_wfD(1) [OF wf that] .
  show ?thesis
  proof (cases "h \<in> S")
    case True
    then have "fmlookup acc (shiftVID res (hd (Wires h)) schema_Internal) \<noteq> None"
      using hd by (simp add: inv shifted_so_far_def shiftVID_Internal)
    then have "offset_hint res acc h = acc"
      using ne by (simp add: offset_hint_eq)
    moreover have "insert h S = S" using True by auto
    ultimately show ?thesis using inv by simp
  next
    case False
    then have "fmlookup acc (shiftVID res (hd (Wires h)) schema_Internal) = None"
      using hd by (simp add: inv shifted_so_far_def shiftVID_Internal)
    then have eq: "offset_hint res acc h =
        fold (\<lambda>vID m. fmupd vID (offset_hint_record res h) m)
          (map (\<lambda>vID. shiftVID res vID schema_Internal) (Wires h)) acc"
      by (simp add: offset_hint_eq)
    show ?thesis
    proof
      fix k'
      show "fmlookup (offset_hint res acc h) k' = shifted_so_far res m (insert h S) k'"
      proof (cases "k' \<in> (\<lambda>vID. shiftVID res vID schema_Internal) ` set (Wires h)")
        case True
        then obtain w where w: "w \<in> set (Wires h)" "k' = w + ?n"
          by (auto simp: shiftVID_Internal)
        with all have "fmlookup m w = Some h" by simp
        with w True show ?thesis
          by (simp add: eq fmlookup_fold_fmupd shifted_so_far_def)
      next
        case False
        have "shifted_so_far res m (insert h S) k' = shifted_so_far res m S k'"
        proof (cases "?n \<le> k' \<and> fmlookup m (k' - ?n) = Some h")
          case True
          then have "k' - ?n \<in> set (Wires h)" using inw by simp
          moreover have "k' = shiftVID res (k' - ?n) schema_Internal"
            using True by (simp add: shiftVID_Internal)
          ultimately have "k' \<in> (\<lambda>vID. shiftVID res vID schema_Internal) ` set (Wires h)"
            by (rule rev_image_eqI)
          with False show ?thesis by simp
        next
          case False
          then show ?thesis
            by (auto simp: shifted_so_far_def Let_def split: option.splits)
        qed
        with False show ?thesis
          by (simp add: eq fmlookup_fold_fmupd inv)
      qed
    qed
  qed
qed

lemma HINTLOOP_fold:
  assumes "hints_wf m" and "set ks \<subseteq> fmdom' m" and "fmlookup acc = shifted_so_far res m S"
  shows "fmlookup (fold (\<lambda>k shiftedMap.
             case fmlookup m k of
               None \<Rightarrow> shiftedMap
             | Some hint \<Rightarrow> offset_hint res shiftedMap hint) ks acc)
         = shifted_so_far res m (S \<union> {h. \<exists>k \<in> set ks. fmlookup m k = Some h})"
  using assms(2,3)
proof (induction ks arbitrary: acc S)
  case Nil
  then show ?case by simp
next
  case (Cons k ks)
  then obtain h where h: "fmlookup m k = Some h"
    by (auto simp: fmlookup_dom'_iff)
  have "S \<union> {h. \<exists>k \<in> set (k # ks). fmlookup m k = Some h}
          = insert h S \<union> {h. \<exists>k \<in> set ks. fmlookup m k = Some h}"
    using h by auto
  with Cons.IH [of "offset_hint res acc h" "insert h S"] Cons.prems
    HINTLOOP_step [OF assms(1) h Cons.prems(2)] h
  show ?case by simp
qed

lemma HINTLOOP_lookup:
  assumes "hints_wf m" and "enumerates ks m"
  shows "fmlookup (HINTLOOP res m ks) k' =
           (if NbPublicVariables res + NbSecretVariables res \<le> k'
            then map_option (offset_hint_record res)
                   (fmlookup m (k' - (NbPublicVariables res + NbSecretVariables res)))
            else None)"
proof -
  have s: "set ks \<subseteq> fmdom' m" and all: "set ks = fmdom' m"
    using assms(2) by (auto simp: enumerates_def)
  have e: "fmlookup fmempty = shifted_so_far res m {}"
    by (auto simp: shifted_so_far_def Let_def fun_eq_iff split: option.splits)
  have "fmlookup (HINTLOOP res m ks) = shifted_so_far res m ({} \<union> {h. \<exists>k \<in> set ks. fmlookup m k = Some h})"
    unfolding HINTLOOP_def by (rule HINTLOOP_fold [OF assms(1) s e])
  then show ?thesis
    by (auto simp: shifted_so_far_def Let_def all fmlookup_dom'_iff split: option.splits)
qed

lemma HINTLOOP_order:
  assumes "hints_wf m" and "enumerates ks m" and "enumerates ks' m"
  shows "HINTLOOP res m ks = HINTLOOP res m ks'"
  by (rule fmap_ext) (simp add: HINTLOOP_lookup [OF assms(1,2)] HINTLOOP_lookup [OF assms(1,3)])

lemma HINTLOOP_cong:
  assumes "NbPublicVariables r = NbPublicVariables r'" "NbSecretVariables r = NbSecretVariables r'"
  shows "HINTLOOP r = HINTLOOP r'"
proof -
  have h: "offset_hint r = offset_hint r'"
    unfolding offset_hint_def shiftVID_cong [OF assms] offset_cong(3) [OF assms] ..
  show ?thesis
    by (intro ext) (simp only: HINTLOOP_def h)
qed

lemma Compile_result:
  assumes "Compile fuel ks cs = Inr (res, coeffs)"
  shows "NbPublicVariables res = length (Public cs)"
    and "NbSecretVariables res = length (Secret cs)"
    and "Constraints res = map (offset_constraint res) (Constraints cs)"
    and "MHints res = HINTLOOP res (MHints cs) ks"
    and "Logs res = map (offset_log res) (Logs cs)"
    and "DebugInfo res = map (offset_log res) (DebugInfo cs)"
    and "coeffs = Coeffs (st cs)"
proof -
  define res0 where "res0 = (R1CS.truncate cs)\<lparr>NbPublicVariables := length (Public cs),
                                         NbSecretVariables := length (Secret cs)\<rparr>"
  define res3 where "res3 = res0\<lparr>Constraints := map (offset_constraint res0) (Constraints res0),
      MHints := HINTLOOP res0 (MHints cs) ks,
      Logs := map (offset_log res0) (Logs res0),
      DebugInfo := map (offset_log res0) (DebugInfo res0)\<rparr>"
  from assms obtain levels where r: "res = res3\<lparr>Levels := levels\<rparr>" and c: "coeffs = Coeffs (st cs)"
    unfolding Compile_def Let_def res3_def res0_def
    by (auto split: sum.splits if_splits)
  have n: "NbPublicVariables res = NbPublicVariables res0" "NbSecretVariables res = NbSecretVariables res0"
    by (simp_all add: r res3_def)
  note oc = offset_cong [OF n] HINTLOOP_cong [OF n]
  have t: "Constraints res0 = Constraints cs" "Logs res0 = Logs cs" "DebugInfo res0 = DebugInfo cs"
    by (simp_all add: res0_def R1CS.truncate_def)
  show "NbPublicVariables res = length (Public cs)" "NbSecretVariables res = length (Secret cs)"
    by (simp_all add: n res0_def)
  show "Constraints res = map (offset_constraint res) (Constraints cs)"
    unfolding oc by (simp add: r res3_def t)
  show "MHints res = HINTLOOP res (MHints cs) ks"
    unfolding oc by (simp add: r res3_def)
  show "Logs res = map (offset_log res) (Logs cs)"
    unfolding oc by (simp add: r res3_def t)
  show "DebugInfo res = map (offset_log res) (DebugInfo cs)"
    unfolding oc by (simp add: r res3_def t)
  show "coeffs = Coeffs (st cs)" by (rule c)
qed

text \<open>
  C3. When \<open>Compile\<close> returns a constraint system, the counts of public and
  secret wires are those of the builder (the public ones with the reserved wire),
  the shift of a wire ID depends on its visibility alone (a public ID stays, a
  secret ID grows by the number of public wires, an internal ID by the numbers of
  public and secret wires), and the shift has been applied to the wire ID of every
  term of every stored constraint, of every hint input expression (the hint is
  found under each of its shifted output wires, with its wires shifted) and of
  every log and debug entry; the coefficient and the visibility of a term stay.
  The hint map has the shape \<open>NewHint\<close> gives it, and \<open>ks\<close> is the order in
  which the loop meets its keys.
\<close>

theorem Compile_offsets:
  assumes "Compile fuel ks cs = Inr (res, coeffs)"
    and "enumerates ks (MHints cs)" and "hints_wf (MHints cs)"
  shows "NbPublicVariables res = length (Public cs) \<and> NbSecretVariables res = length (Secret cs)
    \<and> (\<forall>oldID.
          shiftVID res oldID schema_Public = oldID
          \<and> shiftVID res oldID schema_Secret = oldID + length (Public cs)
          \<and> shiftVID res oldID schema_Internal = oldID + length (Public cs) + length (Secret cs))
    \<and> (\<forall>t. offsetIDs res [t] =
          [Pack (shiftVID res (WireID t) (VariableVisibility t)) (CoeffID t) (VariableVisibility t)])
    \<and> Constraints res = map (offset_constraint res) (Constraints cs)
    \<and> (\<forall>k h. fmlookup (MHints cs) k = Some h \<longrightarrow>
          fmlookup (MHints res) (shiftVID res k schema_Internal) =
            Some \<lparr>ID = ID h, Inputs = map (offset_input res) (Inputs h),
                  Wires = map (\<lambda>w. shiftVID res w schema_Internal) (Wires h)\<rparr>)
    \<and> Logs res = map (offset_log res) (Logs cs)
    \<and> DebugInfo res = map (offset_log res) (DebugInfo cs)"
proof -
  note r = Compile_result [OF assms(1)]
  have s: "shiftVID res oldID schema_Public = oldID
          \<and> shiftVID res oldID schema_Secret = oldID + length (Public cs)
          \<and> shiftVID res oldID schema_Internal = oldID + length (Public cs) + length (Secret cs)" for oldID
    by (simp add: shiftVID_def r(1,2))
  have o: "offsetIDs res [t] =
          [Pack (shiftVID res (WireID t) (VariableVisibility t)) (CoeffID t) (VariableVisibility t)]" for t
    by (simp add: offsetIDs_def Unpack_def SetWireID_def)
  have h: "fmlookup (MHints res) (shiftVID res k schema_Internal) =
            Some \<lparr>ID = ID h, Inputs = map (offset_input res) (Inputs h),
                  Wires = map (\<lambda>w. shiftVID res w schema_Internal) (Wires h)\<rparr>"
    if "fmlookup (MHints cs) k = Some h" for k h
    using that
    by (simp add: r(4) HINTLOOP_lookup [OF assms(3,2)] shiftVID_Internal offset_hint_record_def)
  from r(1,2,3,5,6) s o h show ?thesis by blast
qed

subsection \<open>Compile: the order of the hint map\<close>

lemma hints_inv_same:
  "MHints s' = MHints s \<Longrightarrow> NbInternalVariables s \<le> NbInternalVariables s' \<Longrightarrow> hints_inv s
   \<Longrightarrow> hints_inv s'"
  by (fastforce simp: hints_inv_def)

lemma reduce_fields:
  "reduce srt q s l = Inr (s', l') \<Longrightarrow> MHints s' = MHints s \<and> NbInternalVariables s' = NbInternalVariables s"
  by (auto simp: reduce_def split: sum.splits)

lemma MarkBoolean_fields:
  "MarkBoolean srt hashCode s v = Inr (s', v')
   \<Longrightarrow> MHints s' = MHints s \<and> NbInternalVariables s' = NbInternalVariables s"
  by (auto simp: MarkBoolean_def Let_def split: sum.splits option.splits if_splits frontend_Variable.splits)

lemma NewHint_inv:
  assumes "NewHint s f nbOutputs inputs = Inr (s', res)" and "hints_inv s"
  shows "hints_inv s'"
proof -
  define n where "n = NbInternalVariables s"
  define k where "k = nat nbOutputs"
  define ws where "ws = map (\<lambda>i. n + i) [0..<k]"
  define ch where "ch = \<lparr>ID = f, Inputs = map hint_input inputs, Wires = ws\<rparr>"
  from assms(1) have pos: "0 < nbOutputs"
    by (auto simp: NewHint_def split: if_splits)
  with assms(1) have m: "MHints s' = fold (\<lambda>vID m. fmupd vID ch m) ws (MHints s)"
    and nb: "NbInternalVariables s' = n + k"
    by (auto simp: NewHint_def prepare_wires_eq n_def k_def ws_def ch_def)
  have look: "fmlookup (MHints s') w = (if w \<in> set ws then Some ch else fmlookup (MHints s) w)" for w
    by (simp add: m fmlookup_fold_fmupd)
  have wsr: "w \<in> set ws \<longleftrightarrow> n \<le> w \<and> w < n + k" for w
    by (auto simp: ws_def image_iff intro: bexI [of _ "w - n"])
  have old: "w < n" if "fmlookup (MHints s) w = Some h" for w h
    using assms(2) that by (auto simp: hints_inv_def n_def fmlookup_dom'_iff)
  have wf: "hints_wf (MHints s)" using assms(2) by (simp add: hints_inv_def)
  have "hints_wf (MHints s')"
    unfolding hints_wf_def
  proof (intro allI impI)
    fix key h
    assume a: "fmlookup (MHints s') key = Some h"
    show "key \<in> set (Wires h) \<and> (\<forall>w \<in> set (Wires h). fmlookup (MHints s') w = Some h)"
    proof (cases "key \<in> set ws")
      case True
      with a have "h = ch" by (simp add: look)
      with True show ?thesis by (simp add: look ch_def)
    next
      case False
      with a have o: "fmlookup (MHints s) key = Some h" by (simp add: look)
      note d = hints_wfD [OF wf o]
      have "fmlookup (MHints s') w = Some h" if "w \<in> set (Wires h)" for w
      proof -
        from d(2) that have "fmlookup (MHints s) w = Some h" by simp
        moreover from old [OF this] have "w \<notin> set ws" by (simp add: wsr)
        ultimately show ?thesis by (simp add: look)
      qed
      with d(1) show ?thesis by simp
    qed
  qed
  moreover have "\<forall>key \<in> fmdom' (MHints s'). key < NbInternalVariables s'"
  proof
    fix key
    assume "key \<in> fmdom' (MHints s')"
    then obtain h where "fmlookup (MHints s') key = Some h"
      by (auto simp: fmlookup_dom'_iff)
    then show "key < NbInternalVariables s'"
      using old [of key h] by (cases "key \<in> set ws") (auto simp: look wsr nb)
  qed
  ultimately show ?thesis by (simp add: hints_inv_def)
qed

lemma do_call_inv:
  assumes "do_call srt hashCode q s c = Inr s'" and "hints_inv s"
  shows "hints_inv s'"
proof (cases c)
  case (Call_AddPublicVariable name)
  with assms show ?thesis
    by (auto simp: do_call_def AddPublicVariable_def Let_def split: if_splits intro: hints_inv_same [of _ s])
next
  case (Call_AddSecretVariable name)
  with assms show ?thesis
    by (auto simp: do_call_def AddSecretVariable_def Let_def split: if_splits intro: hints_inv_same [of _ s])
next
  case (Call_SetSchema x)
  with assms show ?thesis
    by (auto simp: do_call_def SetSchema_def split: if_splits intro: hints_inv_same [of _ s])
next
  case Call_newInternalVariable
  with assms show ?thesis
    by (auto simp: do_call_def newInternalVariable_def Let_def intro: hints_inv_same [of _ s])
next
  case (Call_reduce l)
  with assms obtain l' where "reduce srt q s l = Inr (s', l')"
    by (cases "reduce srt q s l") (auto simp: do_call_def)
  from reduce_fields [OF this] assms(2) show ?thesis
    by (auto intro: hints_inv_same [of _ s])
next
  case (Call_addConstraint l r out d)
  with assms show ?thesis
    by (auto simp: do_call_def addConstraint_def Let_def split: option.splits intro: hints_inv_same [of _ s])
next
  case (Call_MarkBoolean v)
  with assms obtain v' where "MarkBoolean srt hashCode s v = Inr (s', v')"
    by (cases "MarkBoolean srt hashCode s v") (auto simp: do_call_def)
  from MarkBoolean_fields [OF this] assms(2) show ?thesis
    by (auto intro: hints_inv_same [of _ s])
next
  case (Call_NewHint f n ins)
  with assms obtain res where "NewHint s f n ins = Inr (s', res)"
    by (cases "NewHint s f n ins") (auto simp: do_call_def)
  from NewHint_inv [OF this assms(2)] show ?thesis .
qed

lemma run_inv:
  "run srt hashCode q s cs = Inr s' \<Longrightarrow> hints_inv s \<Longrightarrow> hints_inv s'"
proof (induction cs arbitrary: s)
  case Nil
  then show ?case by simp
next
  case (Cons c cs)
  then obtain s1 where c: "do_call srt hashCode q s c = Inr s1" and r: "run srt hashCode q s1 cs = Inr s'"
    by (auto split: sum.splits)
  from Cons.IH [OF r do_call_inv [OF c Cons.prems(2)]] show ?case .
qed

lemma newCompiler_inv: "hints_inv (newCompiler curve cfg)"
  by (simp add: hints_inv_def hints_wf_def newCompiler_def)

lemma Compile_order:
  assumes "hints_wf (MHints cs)" and "enumerates ks (MHints cs)" and "enumerates ks' (MHints cs)"
  shows "Compile fuel ks cs = Compile fuel ks' cs"
  unfolding Compile_def HINTLOOP_order [OF assms] ..

text \<open>
  C9. \<open>Compile\<close> iterates over one map, the hint map. For every state that a
  sequence of builder calls reaches from \<open>newCompiler\<close>, and any two orders
  \<open>ks\<close> and \<open>ks'\<close> in which the iteration may meet the keys, the result of
  \<open>Compile\<close> is the same: the same error or panic, or the same constraint
  system (constraints, hint map, levels and all other fields) and coefficients.
  The calls and \<open>Compile\<close> are functions of their arguments, so two runs of the
  same calls differ in nothing else.
\<close>

theorem Compile_deterministic:
  assumes "run srt hashCode q (newCompiler curve cfg) calls = Inr cs"
    and "enumerates ks (MHints cs)" and "enumerates ks' (MHints cs)"
  shows "Compile fuel ks cs = Compile fuel ks' cs"
proof -
  from run_inv [OF assms(1) newCompiler_inv] have "hints_wf (MHints cs)"
    by (simp add: hints_inv_def)
  from Compile_order [OF this assms(2,3)] show ?thesis .
qed

subsection \<open>The example circuit\<close>

lemma run_example:
  "run insertionSort (\<lambda>l. 0) 7 example_system example_calls = Inr example_circuit"
proof -
  have u: "[0..<2] = [0, Suc 0]" by (simp add: upt_rec numeral_eq_Suc)
  show ?thesis
    by (simp add: example_calls_def example_circuit_def example_system_def newCompiler_def
        do_call_def AddPublicVariable_def AddSecretVariable_def NewHint_def prepare_wires_eq u
        newInternalVariable_def addConstraint_def newR1C_def Clone_def hint_input_def
        example_hint_def Let_def)
qed

lemma checkVariables_example: "checkVariables example_circuit = Inr ()"
  by (simp add: checkVariables_def example_circuit_def example_system_def newCompiler_def len_def
      processTerm_def index_def CoeffIdZero_def example_hint_def Let_def)

lemma buildLevels_example: "buildLevels 1 example_result = Inr [[0], [1], [2]]"
  by (simp add: buildLevels_def buildLevels_builder_def newLevelBuilder_def example_result_def
      R1CS.truncate_def example_circuit_def example_system_def newCompiler_def
      process_constraint_def index_def len_def example_shifted_hint_def Let_def
      numeral_eq_Suc)

lemma Compile_eq:
  "Compile fuel ks cs =
     (case (if \<not> IgnoreUnconstrainedInputs (config cs) then checkVariables cs else Inr ()) of
        Inl e \<Rightarrow> Inl e
      | Inr u \<Rightarrow>
          (case buildLevels fuel (offset_system ks cs) of
             Inl e \<Rightarrow> Inl e
           | Inr levels \<Rightarrow>
               (if supported_curve (CurveID cs)
                then Inr ((offset_system ks cs)\<lparr>Levels := levels\<rparr>, Coeffs (st cs))
                else Inl (Panic ''not implemtented''))))"
  by (simp only: Compile_def offset_system_def Let_def)

lemma offset_system_example:
  "offset_system [0, 1] example_circuit = example_result"
  "offset_system [1, 0] example_circuit = example_result"
  by (simp_all add: offset_system_def HINTLOOP_def offset_hint_def offset_input_def
      offset_constraint_def offset_log_def offsetIDs_def shiftVID_def Unpack_def SetWireID_def
      example_result_def R1CS.truncate_def example_circuit_def example_system_def newCompiler_def
      example_shifted_hint_def example_hint_def Let_def numeral_eq_Suc)

lemma Compile_example:
  "Compile 1 [0, 1] example_circuit = Inr (example_result\<lparr>Levels := [[0], [1], [2]]\<rparr>, [0, 1])"
proof -
  have "IgnoreUnconstrainedInputs (config example_circuit) = False"
    "supported_curve (CurveID example_circuit)" "Coeffs (st example_circuit) = [0, 1]"
    by (simp_all add: example_circuit_def example_system_def newCompiler_def supported_curve_def
        NewCoeffTable_def)
  then show ?thesis
    by (simp add: Compile_eq checkVariables_example offset_system_example [unfolded One_nat_def]
        buildLevels_example [unfolded One_nat_def])
qed

lemma enumerates_example:
  "enumerates [0, 1] (MHints example_circuit)" "enumerates [1, 0] (MHints example_circuit)"
  by (auto simp: enumerates_def example_circuit_def)

lemma hints_wf_example: "hints_wf (MHints example_circuit)"
  using run_inv [OF run_example [unfolded example_system_def] newCompiler_inv]
  by (simp add: hints_inv_def)

theorem Compile_offsets_witness:
  "Compile 1 [0, 1] example_circuit = Inr (example_result\<lparr>Levels := [[0], [1], [2]]\<rparr>, [0, 1])
   \<and> enumerates [0, 1] (MHints example_circuit) \<and> hints_wf (MHints example_circuit)
   \<and> length (Public example_circuit) = 3 \<and> length (Secret example_circuit) = 4
   \<and> shiftVID (example_result\<lparr>Levels := [[0], [1], [2]]\<rparr>) 5 schema_Internal = 12
   \<and> shiftVID (example_result\<lparr>Levels := [[0], [1], [2]]\<rparr>) 2 schema_Secret = 5
   \<and> shiftVID (example_result\<lparr>Levels := [[0], [1], [2]]\<rparr>) 1 schema_Public = 1
   \<and> Constraints (example_result\<lparr>Levels := [[0], [1], [2]]\<rparr>) ! 0
       = \<lparr>R1C_L = Variable [Pack 12 1 schema_Internal], R1C_R = Variable [Pack 5 1 schema_Secret],
          R1C_O = Variable [Pack 1 1 schema_Public]\<rparr>
   \<and> fmlookup (MHints (example_result\<lparr>Levels := [[0], [1], [2]]\<rparr>)) 7
       = Some \<lparr>ID = 9, Inputs = [InLinearExpression [Pack 5 1 schema_Secret]], Wires = [7, 8]\<rparr>"
proof -
  let ?res = "example_result\<lparr>Levels := [[0], [1], [2]]\<rparr>"
  note t = Compile_offsets [OF Compile_example enumerates_example(1) hints_wf_example]
  have l: "length (Public example_circuit) = 3" "length (Secret example_circuit) = 4"
    by (simp_all add: example_circuit_def)
  from t have s: "shiftVID ?res 5 schema_Internal = 5 + length (Public example_circuit) + length (Secret example_circuit)"
    "shiftVID ?res 2 schema_Secret = 2 + length (Public example_circuit)"
    "shiftVID ?res 1 schema_Public = 1"
    by blast+
  have h0: "fmlookup (MHints example_circuit) 0 = Some example_hint"
    by (simp add: example_circuit_def)
  from t have "\<forall>k h. fmlookup (MHints example_circuit) k = Some h \<longrightarrow>
          fmlookup (MHints ?res) (shiftVID ?res k schema_Internal) =
            Some \<lparr>ID = ID h, Inputs = map (offset_input ?res) (Inputs h),
                  Wires = map (\<lambda>w. shiftVID ?res w schema_Internal) (Wires h)\<rparr>"
    by blast
  from this [rule_format, OF h0]
  have h: "fmlookup (MHints ?res) 7
       = Some \<lparr>ID = 9, Inputs = [InLinearExpression [Pack 5 1 schema_Secret]], Wires = [7, 8]\<rparr>"
    by (simp add: shiftVID_def example_result_def example_hint_def offset_input_def offsetIDs_def
        Unpack_def SetWireID_def)
  from t have "Constraints ?res = map (offset_constraint ?res) (Constraints example_circuit)"
    by blast
  then have c: "Constraints ?res ! 0
       = \<lparr>R1C_L = Variable [Pack 12 1 schema_Internal], R1C_R = Variable [Pack 5 1 schema_Secret],
          R1C_O = Variable [Pack 1 1 schema_Public]\<rparr>"
    by (simp add: example_result_def)
  from Compile_example enumerates_example(1) hints_wf_example l s h c show ?thesis
    by simp
qed

theorem Compile_deterministic_witness:
  "run insertionSort (\<lambda>l. 0) 7 (newCompiler BN254 \<lparr>Capacity = 0, IgnoreUnconstrainedInputs = False\<rparr>)
      example_calls = Inr example_circuit
   \<and> enumerates [0, 1] (MHints example_circuit) \<and> enumerates [1, 0] (MHints example_circuit)
   \<and> Compile 1 [1, 0] example_circuit = Compile 1 [0, 1] example_circuit
   \<and> Compile 1 [1, 0] example_circuit = Inr (example_result\<lparr>Levels := [[0], [1], [2]]\<rparr>, [0, 1])"
  using Compile_deterministic [OF run_example [unfolded example_system_def] enumerates_example(2,1), of 1]
    run_example [unfolded example_system_def] enumerates_example Compile_example
  by simp

subsection \<open>The level builder\<close>

lemma processLE_Cons:
  "processLE fuel b (t # l) cID =
     (case process_term fuel b t cID of
        Inl e \<Rightarrow> Inl e
      | Inr b1 \<Rightarrow> processLE fuel b1 l cID)"
  by (simp add: process_term_def Let_def split: option.splits sum.splits nat.splits)

lemma processInputs_Cons:
  "processInputs fuel b (inp # ins) cID =
     (case processLE fuel b (input_terms inp) cID of
        Inl e \<Rightarrow> Inl e
      | Inr b1 \<Rightarrow> processInputs fuel b1 ins cID)"
  by (simp add: input_terms_def split: HintInput.splits)

lemma processLE_append:
  "processLE fuel b (l1 @ l2) cID =
     (case processLE fuel b l1 cID of
        Inl e \<Rightarrow> Inl e
      | Inr b1 \<Rightarrow> processLE fuel b1 l2 cID)"
proof (induction l1 arbitrary: b)
  case Nil
  then show ?case by simp
next
  case (Cons t l1)
  show ?case
    unfolding append_Cons processLE_Cons
    by (cases "process_term fuel b t cID") (simp_all add: Cons)
qed

lemma level_step_refl: "level_step cID b b"
  by (simp add: level_step_def)

lemma level_step_trans:
  assumes "level_step cID a b" and "level_step cID b c"
  shows "level_step cID a c"
proof -
  have m: "fmlookup (mWireToNode c) w = fmlookup (mWireToNode a) w
              \<or> fmlookup (mWireToNode c) w = Some cID" for w
    using assms unfolding level_step_def by metis
  have lv: "nodeLevel c = nodeLevel a
           \<or> (\<exists>w n. fmlookup (mWireToNode a) w = Some n \<and> n \<noteq> cID
                  \<and> n < length (nodeLevels a) \<and> nodeLevel c = nodeLevels a ! n + 1)"
  proof (cases "nodeLevel c = nodeLevel b")
    case True
    with assms(1) show ?thesis unfolding level_step_def by auto
  next
    case False
    with assms(2) obtain w n where n: "fmlookup (mWireToNode b) w = Some n" "n \<noteq> cID"
      "n < length (nodeLevels b)" "nodeLevel c = nodeLevels b ! n + 1"
      unfolding level_step_def by blast
    from assms(1) have d: "fmlookup (mWireToNode b) w = fmlookup (mWireToNode a) w
              \<or> fmlookup (mWireToNode b) w = Some cID" and e: "nodeLevels b = nodeLevels a"
      unfolding level_step_def by auto
    from d n(1,2) have "fmlookup (mWireToNode a) w = Some n" by auto
    with n e have "\<exists>w n. fmlookup (mWireToNode a) w = Some n \<and> n \<noteq> cID
                  \<and> n < length (nodeLevels a) \<and> nodeLevel c = nodeLevels a ! n + 1"
      by (intro exI [of _ w] exI [of _ n]) simp
    then show ?thesis ..
  qed
  from assms have "ccs c = ccs a" "nbInputs c = nbInputs a" "nodeLevels c = nodeLevels a"
    "mLevels c = mLevels a" "nodeLevel a \<le> nodeLevel c"
    unfolding level_step_def by auto
  with m lv show ?thesis unfolding level_step_def by blast
qed

lemma level_step_mark:
  assumes "\<forall>w. fmlookup m' w = fmlookup (mWireToNode b) w \<or> fmlookup m' w = Some cID"
  shows "level_step cID b (b\<lparr>mWireToNode := m'\<rparr>)"
  using assms by (simp add: level_step_def)

lemma process_term_step:
  assumes H: "\<And>f b ins b'. fuel = Suc f \<Longrightarrow> processInputs f b ins cID = Inr b' \<Longrightarrow> level_step cID b b'"
    and "process_term fuel b t cID = Inr b1"
  shows "level_step cID b b1"
proof (cases "WireID t < nbInputs b")
  case True
  with assms(2) show ?thesis by (simp add: process_term_def level_step_refl)
next
  case ni: False
  show ?thesis
  proof (cases "fmlookup (mWireToNode b) (WireID t)")
    case (Some n)
    show ?thesis
    proof (cases "n = cID")
      case True
      with assms(2) ni Some show ?thesis by (simp add: process_term_def level_step_refl)
    next
      case False
      with assms(2) ni Some have n: "n < length (nodeLevels b)"
        and b1: "b1 = (if nodeLevels b ! n \<ge> nodeLevel b then b\<lparr>nodeLevel := nodeLevels b ! n + 1\<rparr> else b)"
        by (auto simp: process_term_def index_def split: if_splits)
      show ?thesis
      proof (cases "nodeLevels b ! n \<ge> nodeLevel b")
        case True
        with b1 Some False n show ?thesis
          by (auto simp: level_step_def)
      next
        case False
        with b1 show ?thesis by (simp add: level_step_refl)
      qed
    qed
  next
    case None
    show ?thesis
    proof (cases "fmlookup (MHints (ccs b)) (WireID t)")
      case nh: None
      with assms(2) ni None have "b1 = b\<lparr>mWireToNode := fmupd (WireID t) cID (mWireToNode b)\<rparr>"
        by (simp add: process_term_def)
      then show ?thesis by (simp add: level_step_mark)
    next
      case (Some h)
      with assms(2) ni None obtain f b' where f: "fuel = Suc f"
        and i: "processInputs f b (Inputs h) cID = Inr b'"
        and b1: "b1 = b'\<lparr>mWireToNode := fold (\<lambda>hwid m. fmupd hwid cID m) (Wires h) (mWireToNode b')\<rparr>"
        by (auto simp: process_term_def split: nat.splits sum.splits)
      from H [OF f i] have s: "level_step cID b b'" .
      have "level_step cID b' b1"
        unfolding b1 by (rule level_step_mark) (simp add: fmlookup_fold_fmupd)
      with s show ?thesis by (rule level_step_trans)
    qed
  qed
qed

lemma processLE_step_list:
  assumes T: "\<And>b t b1. process_term fuel b t cID = Inr b1 \<Longrightarrow> level_step cID b b1"
  shows "processLE fuel b l cID = Inr b' \<Longrightarrow> level_step cID b b'"
proof (induction l arbitrary: b)
  case Nil
  then show ?case by (simp add: level_step_refl)
next
  case (Cons t l)
  from Cons.prems [unfolded processLE_Cons]
  obtain b1 where t: "process_term fuel b t cID = Inr b1"
    and r: "processLE fuel b1 l cID = Inr b'"
    by (auto split: sum.splits)
  from T [OF t] Cons.IH [OF r] show ?case by (rule level_step_trans)
qed

lemma processInputs_step_list:
  assumes L: "\<And>b l b'. processLE fuel b l cID = Inr b' \<Longrightarrow> level_step cID b b'"
  shows "processInputs fuel b ins cID = Inr b' \<Longrightarrow> level_step cID b b'"
proof (induction ins arbitrary: b)
  case Nil
  then show ?case by (simp add: level_step_refl)
next
  case (Cons inp ins)
  from Cons.prems [unfolded processInputs_Cons]
  obtain b1 where t: "processLE fuel b (input_terms inp) cID = Inr b1"
    and r: "processInputs fuel b1 ins cID = Inr b'"
    by (auto split: sum.splits)
  from L [OF t] Cons.IH [OF r] show ?case by (rule level_step_trans)
qed

lemma processInputs_step:
  "processInputs fuel b ins cID = Inr b' \<Longrightarrow> level_step cID b b'"
proof (induction fuel arbitrary: b ins b')
  case 0
  have T: "level_step cID b t1" if "process_term 0 b t cID = Inr t1" for b t t1
    using that by (rule process_term_step [rotated]) simp
  note L = processLE_step_list [of 0 cID, OF T]
  from processInputs_step_list [of 0 cID, OF L "0.prems"] show ?case .
next
  case (Suc fuel)
  have T: "level_step cID b t1" if "process_term (Suc fuel) b t cID = Inr t1" for b t t1
    using that by (rule process_term_step [rotated]) (simp add: Suc.IH)
  note L = processLE_step_list [of "Suc fuel" cID, OF T]
  from processInputs_step_list [of "Suc fuel" cID, OF L Suc.prems] show ?case .
qed

lemma process_term_level_step:
  "process_term fuel b t cID = Inr b1 \<Longrightarrow> level_step cID b b1"
  by (rule process_term_step [rotated]) (auto intro: processInputs_step)

lemma processLE_step:
  "processLE fuel b l cID = Inr b' \<Longrightarrow> level_step cID b b'"
  by (rule processLE_step_list [rotated]) (auto intro: process_term_level_step)

lemma process_term_head:
  assumes "process_term fuel b t cID = Inr b1" and "nbInputs b \<le> WireID t"
    and "fmlookup (mWireToNode b1) (WireID t) = Some n" and "n \<noteq> cID"
  shows "n < length (nodeLevels b) \<and> nodeLevels b ! n < nodeLevel b1"
proof -
  from assms(2) have ni: "\<not> WireID t < nbInputs b" by simp
  show ?thesis
  proof (cases "fmlookup (mWireToNode b) (WireID t)")
    case (Some n0)
    show ?thesis
    proof (cases "n0 = cID")
      case True
      with assms(1) ni Some have "b1 = b" by (simp add: process_term_def)
      with Some True assms(3,4) show ?thesis by simp
    next
      case False
      with assms(1) ni Some have n: "n0 < length (nodeLevels b)"
        and b1: "b1 = (if nodeLevels b ! n0 \<ge> nodeLevel b then b\<lparr>nodeLevel := nodeLevels b ! n0 + 1\<rparr> else b)"
        by (auto simp: process_term_def index_def split: if_splits)
      from b1 have "mWireToNode b1 = mWireToNode b" by (simp split: if_splits)
      with Some assms(3) have "n = n0" by simp
      with n b1 show ?thesis by (auto split: if_splits)
    qed
  next
    case None
    have "fmlookup (mWireToNode b1) (WireID t) = None \<or> fmlookup (mWireToNode b1) (WireID t) = Some cID"
      using process_term_level_step [OF assms(1)] None
      unfolding level_step_def by metis
    with assms(3,4) show ?thesis by auto
  qed
qed

lemma processLE_direct:
  "processLE fuel b l cID = Inr b' \<Longrightarrow> t \<in> set l \<Longrightarrow> nbInputs b \<le> WireID t
   \<Longrightarrow> fmlookup (mWireToNode b') (WireID t) = Some n \<Longrightarrow> n \<noteq> cID
   \<Longrightarrow> n < length (nodeLevels b) \<and> nodeLevels b ! n < nodeLevel b'"
proof (induction l arbitrary: b)
  case Nil
  then show ?case by simp
next
  case (Cons a l)
  from Cons.prems(1) [unfolded processLE_Cons]
  obtain b1 where h: "process_term fuel b a cID = Inr b1"
    and r: "processLE fuel b1 l cID = Inr b'"
    by (auto split: sum.splits)
  note s1 = process_term_level_step [OF h] and s2 = processLE_step [OF r]
  from s1 have e1: "nbInputs b1 = nbInputs b" "nodeLevels b1 = nodeLevels b"
    unfolding level_step_def by auto
  from s2 have le: "nodeLevel b1 \<le> nodeLevel b'"
    and m2: "fmlookup (mWireToNode b') (WireID t) = fmlookup (mWireToNode b1) (WireID t)
              \<or> fmlookup (mWireToNode b') (WireID t) = Some cID"
    unfolding level_step_def by auto
  show ?case
  proof (cases "t = a")
    case True
    from m2 Cons.prems(4,5) have "fmlookup (mWireToNode b1) (WireID a) = Some n"
      using True by auto
    from process_term_head [OF h _ this Cons.prems(5)] Cons.prems(3) True le
    show ?thesis by auto
  next
    case False
    with Cons.prems(2) have "t \<in> set l" by simp
    from Cons.IH [OF r this _ Cons.prems(4,5)] Cons.prems(3) e1
    show ?thesis by simp
  qed
qed

lemma process_constraint_eq:
  "process_constraint fuel b c cID =
     (case processLE fuel (b\<lparr>nodeLevel := 0\<rparr>) (terms_of c) cID of
        Inl e \<Rightarrow> Inl e
      | Inr b3 \<Rightarrow>
          (if cID < length (nodeLevels b3) then
             Inr (b3\<lparr>nodeLevels := (nodeLevels b3)[cID := nodeLevel b3],
                      mLevels :=
                        fmupd (nodeLevel b3)
                          (case fmlookup (mLevels b3) (nodeLevel b3) of
                             None \<Rightarrow> 1
                           | Some k \<Rightarrow> k + 1)
                          (mLevels b3)\<rparr>)
           else Inl IndexOutOfRange))"
  by (simp add: process_constraint_def terms_of_def processLE_append split: sum.splits)

lemma process_constraint_inv:
  assumes inv: "levels_inv pre b" and len: "length pre < length (nodeLevels b)"
    and run: "process_constraint fuel b c (length pre) = Inr b'"
  shows "levels_inv (pre @ [c]) b'" and "length (nodeLevels b') = length (nodeLevels b)"
    and "nbInputs b' = nbInputs b" and "ccs b' = ccs b"
proof -
  let ?k = "length pre"
  let ?NL = "nodeLevels b"
  from run [unfolded process_constraint_eq]
  obtain b3 where p: "processLE fuel (b\<lparr>nodeLevel := 0\<rparr>) (terms_of c) ?k = Inr b3"
    and b': "b' = b3\<lparr>nodeLevels := (nodeLevels b3)[?k := nodeLevel b3],
                      mLevels := fmupd (nodeLevel b3)
                          (case fmlookup (mLevels b3) (nodeLevel b3) of None \<Rightarrow> 1 | Some k \<Rightarrow> k + 1)
                          (mLevels b3)\<rparr>"
    by (auto split: sum.splits if_splits)
  define lvl where "lvl = nodeLevel b3"
  note s = processLE_step [OF p]
  from s have e: "ccs b3 = ccs b" "nbInputs b3 = nbInputs b" "nodeLevels b3 = ?NL" "mLevels b3 = mLevels b"
    unfolding level_step_def by simp_all
  from s have m: "fmlookup (mWireToNode b3) w = fmlookup (mWireToNode b) w
                   \<or> fmlookup (mWireToNode b3) w = Some ?k" for w
    unfolding level_step_def by simp
  from s have lv: "lvl = 0 \<or> (\<exists>w n. fmlookup (mWireToNode b) w = Some n \<and> n \<noteq> ?k
                  \<and> n < length ?NL \<and> lvl = ?NL ! n + 1)"
    unfolding level_step_def lvl_def by simp
  have direct: "?NL ! n < lvl"
    if "t \<in> set (terms_of c)" "nbInputs b \<le> WireID t" "fmlookup (mWireToNode b3) (WireID t) = Some n" "n \<noteq> ?k"
    for t n
    using processLE_direct [OF p that(1) _ that(3,4)] that(2) by (simp add: lvl_def)
  from inv have i1: "n < ?k" if "fmlookup (mWireToNode b) w = Some n" for w n
    using that unfolding levels_inv_def by blast
  from inv have i2: "?NL ! n < ?NL ! c'"
    if "c' < ?k" "t \<in> set (terms_of (pre ! c'))" "nbInputs b \<le> WireID t"
      "fmlookup (mWireToNode b) (WireID t) = Some n" "n < c'" for c' t n
    using that unfolding levels_inv_def by blast
  from inv have i3: "?NL ! c' = 0 \<or> (\<exists>n < c'. ?NL ! c' = ?NL ! n + 1)" if "c' < ?k" for c'
    using that unfolding levels_inv_def by blast
  from inv have i4: "fmdom' (mLevels b) = (\<lambda>c. ?NL ! c) ` {..<?k}"
    unfolding levels_inv_def by blast
  have nl': "nodeLevels b' = ?NL[?k := lvl]" and mw: "mWireToNode b' = mWireToNode b3"
    and ni: "nbInputs b' = nbInputs b" and cc: "ccs b' = ccs b"
    and ml: "fmdom' (mLevels b') = insert lvl (fmdom' (mLevels b))"
    by (simp_all add: b' e lvl_def)
  have at: "nodeLevels b' ! ?k = lvl" and other: "nodeLevels b' ! n = ?NL ! n" if "n \<noteq> ?k" for n
    using len that by (simp_all add: nl')
  have at_k: "nodeLevels b' ! ?k = lvl" using len by (simp add: nl')
  have g1: "n < length (pre @ [c])" if "fmlookup (mWireToNode b') w = Some n" for w n
    using m [of w] that i1 [of w n] by (auto simp: mw)
  have g2: "nodeLevels b' ! n < nodeLevels b' ! c'"
    if "c' < length (pre @ [c])" "t \<in> set (terms_of ((pre @ [c]) ! c'))" "nbInputs b' \<le> WireID t"
      "fmlookup (mWireToNode b') (WireID t) = Some n" "n < c'" for c' t n
  proof (cases "c' = ?k")
    case True
    with that have t: "t \<in> set (terms_of c)" and nk: "n \<noteq> ?k" by simp_all
    from direct [OF t _ _ nk] that(3,4) have "?NL ! n < lvl" by (simp add: ni mw)
    with True nk show ?thesis by (simp add: at_k other)
  next
    case False
    with that(1) have c: "c' < ?k" by simp
    with that(5) have nk: "n \<noteq> ?k" by simp
    from that(2) c have t: "t \<in> set (terms_of (pre ! c'))" by (simp add: nth_append)
    from m [of "WireID t"] that(4) nk have "fmlookup (mWireToNode b) (WireID t) = Some n"
      by (auto simp: mw)
    from i2 [OF c t _ this that(5)] that(3) have "?NL ! n < ?NL ! c'" by (simp add: ni)
    with nk False show ?thesis by (simp add: other)
  qed
  have g3: "nodeLevels b' ! c' = 0 \<or> (\<exists>n < c'. nodeLevels b' ! c' = nodeLevels b' ! n + 1)"
    if "c' < length (pre @ [c])" for c'
  proof (cases "c' = ?k")
    case True
    from lv show ?thesis
    proof
      assume "lvl = 0"
      with True show ?thesis by (simp add: at_k)
    next
      assume "\<exists>w n. fmlookup (mWireToNode b) w = Some n \<and> n \<noteq> ?k \<and> n < length ?NL \<and> lvl = ?NL ! n + 1"
      then obtain w n where n: "fmlookup (mWireToNode b) w = Some n" "n \<noteq> ?k" "lvl = ?NL ! n + 1"
        by blast
      from i1 [OF n(1)] have "n < ?k" .
      moreover have "nodeLevels b' ! ?k = nodeLevels b' ! n + 1"
        using n(2,3) by (simp add: at_k other)
      ultimately show ?thesis using True by blast
    qed
  next
    case False
    with that have c: "c' < ?k" by simp
    from i3 [OF c] show ?thesis
    proof
      assume "?NL ! c' = 0"
      with False show ?thesis by (simp add: other)
    next
      assume "\<exists>n < c'. ?NL ! c' = ?NL ! n + 1"
      then obtain n where n: "n < c'" "?NL ! c' = ?NL ! n + 1" by blast
      with c have "n \<noteq> ?k" by simp
      with n False have "nodeLevels b' ! c' = nodeLevels b' ! n + 1" by (simp add: other)
      with n(1) show ?thesis by blast
    qed
  qed
  have g4: "fmdom' (mLevels b') = (\<lambda>c. nodeLevels b' ! c) ` {..<length (pre @ [c])}"
  proof -
    have "(\<lambda>c. nodeLevels b' ! c) ` {..<?k} = (\<lambda>c. ?NL ! c) ` {..<?k}"
      by (rule image_cong) (simp_all add: other)
    moreover have "{..<length (pre @ [c])} = insert ?k {..<?k}" by auto
    ultimately show ?thesis by (simp add: ml i4 at_k)
  qed
  show "levels_inv (pre @ [c]) b'"
    unfolding levels_inv_def using g1 g2 g3 g4 by blast
  show "length (nodeLevels b') = length (nodeLevels b)" by (simp add: nl')
  show "nbInputs b' = nbInputs b" by (rule ni)
  show "ccs b' = ccs b" by (rule cc)
qed

lemma process_constraints_inv:
  "levels_inv pre b \<Longrightarrow> length (nodeLevels b) = length pre + length rest
   \<Longrightarrow> process_constraints fuel b rest (length pre) = Inr b'
   \<Longrightarrow> levels_inv (pre @ rest) b' \<and> length (nodeLevels b') = length (nodeLevels b)
       \<and> nbInputs b' = nbInputs b \<and> ccs b' = ccs b"
proof (induction rest arbitrary: pre b)
  case Nil
  then show ?case by simp
next
  case (Cons c rest)
  from Cons.prems(3) obtain b1 where c: "process_constraint fuel b c (length pre) = Inr b1"
    and r: "process_constraints fuel b1 rest (length (pre @ [c])) = Inr b'"
    by (auto split: sum.splits)
  from Cons.prems(2) have len: "length pre < length (nodeLevels b)" by simp
  note st = process_constraint_inv [OF Cons.prems(1) len c]
  from Cons.IH [OF st(1) _ r] Cons.prems(2) st(2,3,4)
  show ?case by simp
qed

lemma fill_levels_sets:
  "\<forall>l \<in> set ls. l < length levels \<Longrightarrow>
   \<exists>levels'. fill_levels levels ls n = Inr levels' \<and> length levels' = length levels
     \<and> (\<forall>k < length levels.
           set (levels' ! k) = set (levels ! k) \<union> {n + i | i. i < length ls \<and> ls ! i = k})"
proof (induction ls arbitrary: levels n)
  case Nil
  then show ?case by simp
next
  case (Cons l ls)
  let ?l1 = "levels[l := levels ! l @ [n]]"
  from Cons.prems have l: "l < length levels" and rest: "\<forall>x \<in> set ls. x < length ?l1" by simp_all
  from Cons.IH [OF rest, of "n + 1"] obtain levels' where
    f: "fill_levels ?l1 ls (n + 1) = Inr levels'" and len: "length levels' = length levels"
    and sets: "\<forall>k < length levels.
           set (levels' ! k) = set (?l1 ! k) \<union> {n + 1 + i | i. i < length ls \<and> ls ! i = k}"
    by auto
  have "set (levels' ! k) = set (levels ! k) \<union> {n + i | i. i < length (l # ls) \<and> (l # ls) ! i = k}"
    if k: "k < length levels" for k
  proof -
    have a: "set (?l1 ! k) = set (levels ! k) \<union> (if k = l then {n} else {})"
      using k by (simp add: nth_list_update)
    have b: "{n + i | i. i < length (l # ls) \<and> (l # ls) ! i = k}
               = (if k = l then {n} else {}) \<union> {n + 1 + i | i. i < length ls \<and> ls ! i = k}"
    proof (intro set_eqI iffI)
      fix x
      assume "x \<in> {n + i | i. i < length (l # ls) \<and> (l # ls) ! i = k}"
      then obtain i where i: "x = n + i" "i < length (l # ls)" "(l # ls) ! i = k" by blast
      show "x \<in> (if k = l then {n} else {}) \<union> {n + 1 + i | i. i < length ls \<and> ls ! i = k}"
      proof (cases i)
        case 0
        with i show ?thesis by simp
      next
        case (Suc j)
        with i have "x = n + 1 + j" "j < length ls" "ls ! j = k" by simp_all
        then show ?thesis by blast
      qed
    next
      fix x
      assume "x \<in> (if k = l then {n} else {}) \<union> {n + 1 + i | i. i < length ls \<and> ls ! i = k}"
      then consider "k = l" "x = n" | j where "x = n + 1 + j" "j < length ls" "ls ! j = k"
        by (auto split: if_splits)
      then show "x \<in> {n + i | i. i < length (l # ls) \<and> (l # ls) ! i = k}"
      proof cases
        case 1
        then have "x = n + 0 \<and> 0 < length (l # ls) \<and> (l # ls) ! 0 = k" by simp
        then show ?thesis by blast
      next
        case 2
        then have "x = n + Suc j \<and> Suc j < length (l # ls) \<and> (l # ls) ! Suc j = k" by simp
        then show ?thesis by blast
      qed
    qed
    from sets k have "set (levels' ! k) = set (?l1 ! k) \<union> {n + 1 + i | i. i < length ls \<and> ls ! i = k}"
      by simp
    with a b show ?thesis by (simp add: Un_assoc)
  qed
  with f len l show ?case by simp
qed

lemma downward_closed_initial:
  fixes L :: "nat set"
  assumes "finite L" and "\<forall>x \<in> L. \<forall>j \<le> x. j \<in> L"
  shows "L = {..<card L}"
proof (cases "L = {}")
  case True
  then show ?thesis by simp
next
  case False
  let ?m = "Max L"
  have "L = {..?m}"
  proof (intro set_eqI iffI)
    fix x assume "x \<in> L"
    then show "x \<in> {..?m}" using assms(1) by simp
  next
    fix x assume "x \<in> {..?m}"
    moreover have "?m \<in> L" using assms(1) False by simp
    ultimately show "x \<in> L" using assms(2) by auto
  qed
  then have "card L = Suc ?m" by (metis card_atMost)
  with \<open>L = {..?m}\<close> show ?thesis by (simp add: lessThan_Suc_atMost)
qed

lemma levels_inv_contiguous:
  assumes "levels_inv pre b"
  shows "\<forall>c < length pre. nodeLevels b ! c < len (mLevels b)"
proof -
  let ?NL = "nodeLevels b"
  let ?L = "(\<lambda>c. ?NL ! c) ` {..<length pre}"
  from assms have i3: "?NL ! c = 0 \<or> (\<exists>n < c. ?NL ! c = ?NL ! n + 1)" if "c < length pre" for c
    using that unfolding levels_inv_def by blast
  from assms have i4: "fmdom' (mLevels b) = ?L"
    unfolding levels_inv_def by blast
  have down: "j \<in> ?L" if "c < length pre" "j \<le> ?NL ! c" for c j
    using that
  proof (induction c arbitrary: j rule: less_induct)
    case (less c)
    show ?case
    proof (cases "j = ?NL ! c")
      case True
      with less.prems(1) show ?thesis by blast
    next
      case False
      with less.prems(2) have "j < ?NL ! c" by simp
      with i3 [OF less.prems(1)] obtain n where n: "n < c" "?NL ! c = ?NL ! n + 1" by auto
      with \<open>j < ?NL ! c\<close> have "j \<le> ?NL ! n" by simp
      from less.IH [OF n(1) _ this] n(1) less.prems(1) show ?thesis by simp
    qed
  qed
  have "?L = {..<card ?L}"
    by (rule downward_closed_initial) (auto intro: down)
  moreover have "?NL ! c \<in> ?L" if "c < length pre" for c using that by blast
  ultimately have "?NL ! c < card ?L" if "c < length pre" for c
    using that by blast
  then show ?thesis by (simp add: len_def i4)
qed

lemma processLE_inputs_ignored:
  "processLE fuel b l cID = processLE fuel b (filter (\<lambda>t. nbInputs b \<le> WireID t) l) cID"
proof (induction l arbitrary: b)
  case Nil
  then show ?case by simp
next
  case (Cons t l)
  show ?case
  proof (cases "nbInputs b \<le> WireID t")
    case False
    then have "process_term fuel b t cID = Inr b"
      by (simp add: process_term_def)
    with False Cons [of b] show ?thesis
      by (simp add: processLE_Cons)
  next
    case True
    have "processLE fuel b1 l cID = processLE fuel b1 (filter (\<lambda>t. nbInputs b \<le> WireID t) l) cID"
      if "process_term fuel b t cID = Inr b1" for b1
    proof -
      from process_term_level_step [OF that] have "nbInputs b1 = nbInputs b"
        unfolding level_step_def by simp
      with Cons [of b1] show ?thesis by simp
    qed
    then have "(case process_term fuel b t cID of Inl e \<Rightarrow> Inl e | Inr b1 \<Rightarrow> processLE fuel b1 l cID)
        = (case process_term fuel b t cID of Inl e \<Rightarrow> Inl e
           | Inr b1 \<Rightarrow> processLE fuel b1 (filter (\<lambda>t. nbInputs b \<le> WireID t) l) cID)"
      by (cases "process_term fuel b t cID") simp_all
    moreover have "filter (\<lambda>t. nbInputs b \<le> WireID t) (t # l) = t # filter (\<lambda>t. nbInputs b \<le> WireID t) l"
      using True by simp
    ultimately show ?thesis
      by (simp only: processLE_Cons)
  qed
qed

lemma newLevelBuilder_inv: "levels_inv [] (newLevelBuilder r)"
  by (simp add: levels_inv_def newLevelBuilder_def)

lemma buildLevels_builder_inv:
  assumes "buildLevels_builder fuel r = Inr b"
  shows "levels_inv (Constraints r) b" and "length (nodeLevels b) = length (Constraints r)"
    and "nbInputs b = NbPublicVariables r + NbSecretVariables r"
proof -
  have l: "length (nodeLevels (newLevelBuilder r)) = length ([] :: R1C list) + length (Constraints r)"
    by (simp add: newLevelBuilder_def)
  from assms have "process_constraints fuel (newLevelBuilder r) (Constraints r) (length ([] :: R1C list)) = Inr b"
    by (simp add: buildLevels_builder_def)
  from process_constraints_inv [OF newLevelBuilder_inv l this]
  show "levels_inv (Constraints r) b" "length (nodeLevels b) = length (Constraints r)"
    "nbInputs b = NbPublicVariables r + NbSecretVariables r"
    by (simp_all add: newLevelBuilder_def)
qed

lemma buildLevels_partition:
  assumes "buildLevels_builder fuel r = Inr b"
  shows "\<exists>levels. buildLevels fuel r = Inr levels
           \<and> (\<forall>c < length (Constraints r).
                 nodeLevels b ! c < length levels
                 \<and> (\<forall>k < length levels. c \<in> set (levels ! k) \<longleftrightarrow> nodeLevels b ! c = k))"
proof -
  note i = buildLevels_builder_inv [OF assms]
  let ?m = "len (mLevels b)"
  from levels_inv_contiguous [OF i(1)] i(2)
  have "\<forall>l \<in> set (nodeLevels b). l < length (replicate ?m ([] :: nat list))"
    by (auto simp: in_set_conv_nth)
  from fill_levels_sets [OF this, of 0] obtain levels where
    f: "fill_levels (replicate ?m []) (nodeLevels b) 0 = Inr levels" and len: "length levels = ?m"
    and sets: "\<forall>k < ?m. set (levels ! k) = {i. i < length (nodeLevels b) \<and> nodeLevels b ! i = k}"
    by auto
  have "buildLevels fuel r = Inr levels"
    using assms f by (simp add: buildLevels_def)
  moreover have "nodeLevels b ! c < length levels
                 \<and> (\<forall>k < length levels. c \<in> set (levels ! k) \<longleftrightarrow> nodeLevels b ! c = k)"
    if "c < length (Constraints r)" for c
    using that levels_inv_contiguous [OF i(1)] sets by (simp add: len i(2))
  ultimately show ?thesis by blast
qed

lemma buildLevels_builder_direct:
  assumes "buildLevels_builder fuel r = Inr b"
    and "c < length (Constraints r)" and "t \<in> set (terms_of (Constraints r ! c))"
    and "NbPublicVariables r + NbSecretVariables r \<le> WireID t"
    and "fmlookup (mWireToNode b) (WireID t) = Some c'" and "c' < c"
  shows "nodeLevels b ! c' < nodeLevels b ! c"
proof -
  note i = buildLevels_builder_inv [OF assms(1)]
  from i(1) assms(2,3,5,6) assms(4) [folded i(3)] show ?thesis
    unfolding levels_inv_def by blast
qed

lemma nodes_in_range_step:
  assumes "level_step cID b b'" and "nodes_in_range b cID"
  shows "nodes_in_range b' cID"
proof -
  from assms(1) have e: "nodeLevels b' = nodeLevels b"
    and m: "fmlookup (mWireToNode b') w = fmlookup (mWireToNode b) w
              \<or> fmlookup (mWireToNode b') w = Some cID" for w
    unfolding level_step_def by auto
  from assms(2) have r: "n < length (nodeLevels b)" if "fmlookup (mWireToNode b) w = Some n" for w n
    using that unfolding nodes_in_range_def by blast
  from assms(2) have c: "cID < length (nodeLevels b)"
    unfolding nodes_in_range_def by blast
  have "n < length (nodeLevels b')" if "fmlookup (mWireToNode b') w = Some n" for w n
    using m [of w] that r [of w n] c by (auto simp: e)
  with c e show ?thesis unfolding nodes_in_range_def by simp
qed

lemma process_term_total:
  assumes H: "\<And>f b ins. fuel = Suc f \<Longrightarrow> nodes_in_range b cID \<Longrightarrow> hints_descend (ccs b)
                \<Longrightarrow> \<forall>inp \<in> set ins. \<forall>t \<in> set (input_terms inp). WireID t < f
                \<Longrightarrow> \<exists>b'. processInputs f b ins cID = Inr b'"
    and r: "nodes_in_range b cID" and d: "hints_descend (ccs b)" and w: "WireID t < fuel"
  shows "\<exists>b1. process_term fuel b t cID = Inr b1"
proof (cases "WireID t < nbInputs b")
  case True
  then show ?thesis by (simp add: process_term_def)
next
  case ni: False
  show ?thesis
  proof (cases "fmlookup (mWireToNode b) (WireID t)")
    case (Some n)
    with r have "n < length (nodeLevels b)" unfolding nodes_in_range_def by blast
    with ni Some show ?thesis by (simp add: process_term_def index_def)
  next
    case None
    show ?thesis
    proof (cases "fmlookup (MHints (ccs b)) (WireID t)")
      case nh: None
      with ni None show ?thesis by (simp add: process_term_def)
    next
      case (Some h)
      from w obtain f where f: "fuel = Suc f" by (cases fuel) auto
      from d Some have "\<forall>inp \<in> set (Inputs h). \<forall>t' \<in> set (input_terms inp). WireID t' < WireID t"
        unfolding hints_descend_def by blast
      with w f have "\<forall>inp \<in> set (Inputs h). \<forall>t' \<in> set (input_terms inp). WireID t' < f"
        by fastforce
      from H [OF f r d this] obtain b' where "processInputs f b (Inputs h) cID = Inr b'" ..
      with ni None Some f show ?thesis by (simp add: process_term_def)
    qed
  qed
qed

lemma processLE_total_list:
  assumes T: "\<And>b t. nodes_in_range b cID \<Longrightarrow> hints_descend (ccs b) \<Longrightarrow> WireID t < fuel
                \<Longrightarrow> \<exists>b1. process_term fuel b t cID = Inr b1"
  shows "nodes_in_range b cID \<Longrightarrow> hints_descend (ccs b) \<Longrightarrow> \<forall>t \<in> set l. WireID t < fuel
         \<Longrightarrow> \<exists>b'. processLE fuel b l cID = Inr b'"
proof (induction l arbitrary: b)
  case Nil
  then show ?case by simp
next
  case (Cons t l)
  from T [OF Cons.prems(1,2), of t] Cons.prems(3)
  obtain b1 where h: "process_term fuel b t cID = Inr b1" by auto
  note s = process_term_level_step [OF h]
  from s have c: "ccs b1 = ccs b" unfolding level_step_def by simp
  from Cons.IH [OF nodes_in_range_step [OF s Cons.prems(1)]] Cons.prems(2,3) c
  obtain b' where "processLE fuel b1 l cID = Inr b'" by auto
  with h show ?case by (simp only: processLE_Cons) simp
qed

lemma processInputs_total_list:
  assumes L: "\<And>b l. nodes_in_range b cID \<Longrightarrow> hints_descend (ccs b) \<Longrightarrow> \<forall>t \<in> set l. WireID t < fuel
                \<Longrightarrow> \<exists>b'. processLE fuel b l cID = Inr b'"
  shows "nodes_in_range b cID \<Longrightarrow> hints_descend (ccs b)
         \<Longrightarrow> \<forall>inp \<in> set ins. \<forall>t \<in> set (input_terms inp). WireID t < fuel
         \<Longrightarrow> \<exists>b'. processInputs fuel b ins cID = Inr b'"
proof (induction ins arbitrary: b)
  case Nil
  then show ?case by simp
next
  case (Cons inp ins)
  from Cons.prems(3) have "\<forall>t \<in> set (input_terms inp). WireID t < fuel" by simp
  from L [OF Cons.prems(1,2) this]
  obtain b1 where h: "processLE fuel b (input_terms inp) cID = Inr b1" ..
  note s = processLE_step [OF h]
  from s have c: "ccs b1 = ccs b" unfolding level_step_def by simp
  from Cons.IH [OF nodes_in_range_step [OF s Cons.prems(1)]] Cons.prems(2,3) c
  obtain b' where "processInputs fuel b1 ins cID = Inr b'" by auto
  with h show ?case by (simp only: processInputs_Cons) simp
qed

lemma processInputs_total:
  "nodes_in_range b cID \<Longrightarrow> hints_descend (ccs b)
   \<Longrightarrow> \<forall>inp \<in> set ins. \<forall>t \<in> set (input_terms inp). WireID t < fuel
   \<Longrightarrow> \<exists>b'. processInputs fuel b ins cID = Inr b'"
proof (induction fuel arbitrary: b ins)
  case 0
  have T: "\<exists>b1. process_term 0 b t cID = Inr b1"
    if "nodes_in_range b cID" "hints_descend (ccs b)" "WireID t < 0" for b t
    using that by simp
  note L = processLE_total_list [of cID 0, OF T]
  from processInputs_total_list [of cID 0, OF L "0.prems"] show ?case by blast
next
  case (Suc fuel)
  have T: "\<exists>b1. process_term (Suc fuel) b t cID = Inr b1"
    if "nodes_in_range b cID" "hints_descend (ccs b)" "WireID t < Suc fuel" for b t
    using that by (intro process_term_total) (auto intro: Suc.IH)
  note L = processLE_total_list [of cID "Suc fuel", OF T]
  from processInputs_total_list [of cID "Suc fuel", OF L Suc.prems] show ?case by blast
qed

lemma processLE_total:
  assumes "nodes_in_range b cID" and "hints_descend (ccs b)" and "\<forall>t \<in> set l. WireID t < fuel"
  shows "\<exists>b'. processLE fuel b l cID = Inr b'"
proof -
  have T: "\<exists>b1. process_term fuel b t cID = Inr b1"
    if "nodes_in_range b cID" "hints_descend (ccs b)" "WireID t < fuel" for b t
    using that by (intro process_term_total) (auto intro: processInputs_total)
  from processLE_total_list [of cID fuel, OF T assms] show ?thesis by blast
qed

lemma process_constraint_total:
  assumes inv: "levels_inv pre b" and len: "length pre < length (nodeLevels b)"
    and d: "hints_descend (ccs b)" and w: "\<forall>t \<in> set (terms_of c). WireID t < fuel"
  shows "\<exists>b'. process_constraint fuel b c (length pre) = Inr b'"
proof -
  let ?b0 = "b\<lparr>nodeLevel := 0\<rparr>"
  from inv have "n < length pre" if "fmlookup (mWireToNode b) w = Some n" for w n
    using that unfolding levels_inv_def by blast
  with len have r: "nodes_in_range ?b0 (length pre)"
    unfolding nodes_in_range_def by fastforce
  from d have d0: "hints_descend (ccs ?b0)" by simp
  from processLE_total [OF r d0 w] obtain b3 where
    p: "processLE fuel ?b0 (terms_of c) (length pre) = Inr b3" ..
  from processLE_step [OF p] have "nodeLevels b3 = nodeLevels b"
    unfolding level_step_def by simp
  with p len show ?thesis by (simp add: process_constraint_eq)
qed

lemma process_constraints_total:
  "levels_inv pre b \<Longrightarrow> length (nodeLevels b) = length pre + length rest
   \<Longrightarrow> hints_descend (ccs b) \<Longrightarrow> \<forall>c \<in> set rest. \<forall>t \<in> set (terms_of c). WireID t < fuel
   \<Longrightarrow> \<exists>b'. process_constraints fuel b rest (length pre) = Inr b'"
proof (induction rest arbitrary: pre b)
  case Nil
  then show ?case by simp
next
  case (Cons c rest)
  from Cons.prems(2) have len: "length pre < length (nodeLevels b)" by simp
  from Cons.prems(4) have w: "\<forall>t \<in> set (terms_of c). WireID t < fuel" by simp
  from process_constraint_total [OF Cons.prems(1) len Cons.prems(3) w]
  obtain b1 where c: "process_constraint fuel b c (length pre) = Inr b1" ..
  note st = process_constraint_inv [OF Cons.prems(1) len c]
  from Cons.IH [OF st(1)] Cons.prems(2,3,4) st(2,4)
  obtain b' where "process_constraints fuel b1 rest (length (pre @ [c])) = Inr b'" by auto
  with c show ?case by simp
qed

lemma buildLevels_builder_total:
  assumes "hints_descend r" and "\<forall>c \<in> set (Constraints r). \<forall>t \<in> set (terms_of c). WireID t < fuel"
  shows "\<exists>b. buildLevels_builder fuel r = Inr b"
proof -
  have l: "length (nodeLevels (newLevelBuilder r)) = length ([] :: R1C list) + length (Constraints r)"
    by (simp add: newLevelBuilder_def)
  have d: "hints_descend (ccs (newLevelBuilder r))"
    using assms(1) by (simp add: newLevelBuilder_def)
  from process_constraints_total [OF newLevelBuilder_inv l d assms(2)]
  show ?thesis by (simp add: buildLevels_builder_def)
qed

text \<open>
  C1. The level partition of \<open>buildLevels\<close> is dependency-safe. Whenever the first
  loop of \<open>buildLevels\<close> returns a builder \<open>b\<close>, \<open>buildLevels\<close> returns a list of
  levels in which the constraint \<open>c\<close> lies on the level \<open>nodeLevels b ! c\<close> and on no
  other, and for every term of \<open>L\<close>, \<open>R\<close> or \<open>O\<close> of \<open>c\<close> whose wire is not an
  input (its ID is at least the number of public and secret wires) and was resolved by
  an earlier constraint \<open>c'\<close>, the level of \<open>c'\<close> is strictly below the level of
  \<open>c\<close>. The loop does return when the inputs of every hint refer to wires below the
  hint's outputs and \<open>fuel\<close> exceeds every wire ID of the constraints. Terms on
  wires below the input count have no effect on \<open>processLE\<close>, so they never raise a
  level.
\<close>

theorem buildLevels_dependency_safe:
  "(\<forall>b. buildLevels_builder fuel r = Inr b \<longrightarrow>
      (\<exists>levels. buildLevels fuel r = Inr levels
         \<and> (\<forall>c < length (Constraints r).
               nodeLevels b ! c < length levels
               \<and> (\<forall>k < length levels. c \<in> set (levels ! k) \<longleftrightarrow> nodeLevels b ! c = k)
               \<and> (\<forall>t \<in> set (terms_of (Constraints r ! c)). \<forall>c'.
                     NbPublicVariables r + NbSecretVariables r \<le> WireID t
                     \<and> fmlookup (mWireToNode b) (WireID t) = Some c' \<and> c' < c
                     \<longrightarrow> nodeLevels b ! c' < nodeLevels b ! c))))
   \<and> (hints_descend r \<and> (\<forall>c \<in> set (Constraints r). \<forall>t \<in> set (terms_of c). WireID t < fuel)
        \<longrightarrow> (\<exists>b. buildLevels_builder fuel r = Inr b))
   \<and> (\<forall>b l cID. processLE fuel b l cID
         = processLE fuel b (filter (\<lambda>t. nbInputs b \<le> WireID t) l) cID)"
proof (intro conjI allI impI)
  fix b
  assume b: "buildLevels_builder fuel r = Inr b"
  from buildLevels_partition [OF b] obtain levels where
    l: "buildLevels fuel r = Inr levels"
    and p: "\<forall>c < length (Constraints r).
                 nodeLevels b ! c < length levels
                 \<and> (\<forall>k < length levels. c \<in> set (levels ! k) \<longleftrightarrow> nodeLevels b ! c = k)"
    by blast
  have "nodeLevels b ! c' < nodeLevels b ! c"
    if "c < length (Constraints r)" "t \<in> set (terms_of (Constraints r ! c))"
      "NbPublicVariables r + NbSecretVariables r \<le> WireID t
        \<and> fmlookup (mWireToNode b) (WireID t) = Some c' \<and> c' < c" for c t c'
    using buildLevels_builder_direct [OF b that(1,2)] that(3) by blast
  with l p show "\<exists>levels. buildLevels fuel r = Inr levels
         \<and> (\<forall>c < length (Constraints r).
               nodeLevels b ! c < length levels
               \<and> (\<forall>k < length levels. c \<in> set (levels ! k) \<longleftrightarrow> nodeLevels b ! c = k)
               \<and> (\<forall>t \<in> set (terms_of (Constraints r ! c)). \<forall>c'.
                     NbPublicVariables r + NbSecretVariables r \<le> WireID t
                     \<and> fmlookup (mWireToNode b) (WireID t) = Some c' \<and> c' < c
                     \<longrightarrow> nodeLevels b ! c' < nodeLevels b ! c))"
    by blast
next
  assume "hints_descend r \<and> (\<forall>c \<in> set (Constraints r). \<forall>t \<in> set (terms_of c). WireID t < fuel)"
  then show "\<exists>b. buildLevels_builder fuel r = Inr b"
    using buildLevels_builder_total by blast
next
  fix b l cID
  show "processLE fuel b l cID = processLE fuel b (filter (\<lambda>t. nbInputs b \<le> WireID t) l) cID"
    by (rule processLE_inputs_ignored)
qed

lemma hints_descend_example: "hints_descend example_result"
  by (simp add: hints_descend_def example_result_def example_shifted_hint_def input_terms_def)

lemma wires_example:
  "\<forall>c \<in> set (Constraints example_result). \<forall>t \<in> set (terms_of c). WireID t < 13"
  by (simp add: example_result_def terms_of_def)

lemma buildLevels_builder_example:
  "\<exists>b. buildLevels_builder 13 example_result = Inr b
       \<and> fmlookup (mWireToNode b) 12 = Some 0 \<and> fmlookup (mWireToNode b) 8 = Some 1"
  by (simp add: buildLevels_builder_def newLevelBuilder_def example_result_def
      R1CS.truncate_def example_circuit_def example_system_def newCompiler_def
      process_constraint_def index_def example_shifted_hint_def Let_def
      numeral_eq_Suc)

lemma buildLevels_example_fuel: "buildLevels 13 example_result = Inr [[0], [1], [2]]"
  by (simp add: buildLevels_def buildLevels_builder_def newLevelBuilder_def example_result_def
      R1CS.truncate_def example_circuit_def example_system_def newCompiler_def
      process_constraint_def index_def len_def example_shifted_hint_def Let_def
      numeral_eq_Suc)

theorem buildLevels_dependency_safe_witness:
  "hints_descend example_result
   \<and> list_all (\<lambda>c. list_all (\<lambda>t. WireID t < 13) (terms_of c)) (Constraints example_result)
   \<and> buildLevels 13 example_result = Inr [[0], [1], [2]]
   \<and> (\<exists>b. buildLevels_builder 13 example_result = Inr b
          \<and> fmlookup (mWireToNode b) 12 = Some 0 \<and> fmlookup (mWireToNode b) 8 = Some 1
          \<and> nodeLevels b ! 0 < nodeLevels b ! 1 \<and> nodeLevels b ! 1 < nodeLevels b ! 2
          \<and> nodeLevels b ! 2 < 3)"
proof -
  note t = buildLevels_dependency_safe [of 13 example_result]
  from t hints_descend_example wires_example
  obtain b where b: "buildLevels_builder 13 example_result = Inr b" by blast
  with buildLevels_builder_example
  have m: "fmlookup (mWireToNode b) 12 = Some 0" "fmlookup (mWireToNode b) 8 = Some 1"
    by auto
  from t b obtain levels where l: "buildLevels 13 example_result = Inr levels"
    and p: "\<forall>c < length (Constraints example_result).
               nodeLevels b ! c < length levels
               \<and> (\<forall>k < length levels. c \<in> set (levels ! k) \<longleftrightarrow> nodeLevels b ! c = k)
               \<and> (\<forall>t \<in> set (terms_of (Constraints example_result ! c)). \<forall>c'.
                     NbPublicVariables example_result + NbSecretVariables example_result \<le> WireID t
                     \<and> fmlookup (mWireToNode b) (WireID t) = Some c' \<and> c' < c
                     \<longrightarrow> nodeLevels b ! c' < nodeLevels b ! c)"
    by blast
  have n: "length (Constraints example_result) = 3"
    "NbPublicVariables example_result + NbSecretVariables example_result = 7"
    "Pack 12 1 schema_Internal \<in> set (terms_of (Constraints example_result ! 1))"
    "Pack 8 1 schema_Internal \<in> set (terms_of (Constraints example_result ! 2))"
    by (simp_all add: example_result_def terms_of_def)
  from l buildLevels_example_fuel have ll: "length levels = 3" by auto
  from p [rule_format, of 1] n(1)
  have "\<forall>t \<in> set (terms_of (Constraints example_result ! 1)). \<forall>c'.
          NbPublicVariables example_result + NbSecretVariables example_result \<le> WireID t
          \<and> fmlookup (mWireToNode b) (WireID t) = Some c' \<and> c' < 1
          \<longrightarrow> nodeLevels b ! c' < nodeLevels b ! 1"
    by simp
  from this [rule_format, OF n(3), of 0] m(1) n(2)
  have a: "nodeLevels b ! 0 < nodeLevels b ! 1" by simp
  from p [rule_format, of 2] n(1)
  have q: "nodeLevels b ! 2 < length levels"
    "\<forall>t \<in> set (terms_of (Constraints example_result ! 2)). \<forall>c'.
          NbPublicVariables example_result + NbSecretVariables example_result \<le> WireID t
          \<and> fmlookup (mWireToNode b) (WireID t) = Some c' \<and> c' < 2
          \<longrightarrow> nodeLevels b ! c' < nodeLevels b ! 2"
    by simp_all
  from q(2) [rule_format, OF n(4), of 1] m(2) n(2)
  have c: "nodeLevels b ! 1 < nodeLevels b ! 2" by simp
  have w: "list_all (\<lambda>c. list_all (\<lambda>t. WireID t < 13) (terms_of c)) (Constraints example_result)"
    using wires_example by (simp add: list_all_iff)
  from hints_descend_example w buildLevels_example_fuel b m a c q(1) ll show ?thesis
    by simp
qed

end
